theory Spec2Isabelle
  imports Complex_Main "HOL-Library.Multiset"
begin

section \<open>Python string primitives used by the parser\<close>

text \<open>
  The parser of \<^verbatim>\<open>pyemsi/femap_parser.pyx\<close> works on Python \<^verbatim>\<open>str\<close> values with
  \<^verbatim>\<open>rstrip\<close>, \<^verbatim>\<open>strip\<close>, \<^verbatim>\<open>split\<close> and \<^verbatim>\<open>in\<close>. A string is a list of characters
  (code points below 256). \<open>is_space\<close> is Python's notion of whitespace on that range,
  the characters removed by \<^verbatim>\<open>str.strip()\<close> and separating the words of
  \<^verbatim>\<open>str.split()\<close>.
\<close>

definition is_space :: "char \<Rightarrow> bool" where
  "is_space c \<longleftrightarrow>
     c \<in> set [CHR 0x09, CHR 0x0A, CHR 0x0B, CHR 0x0C, CHR 0x0D,
               CHR 0x1C, CHR 0x1D, CHR 0x1E, CHR 0x1F, CHR 0x20, CHR 0x85, CHR 0xA0]"

text \<open>\<^verbatim>\<open>s.rstrip(chars)\<close>: drop the longest suffix made of characters satisfying \<open>P\<close>.\<close>

definition rstrip_chars :: "(char \<Rightarrow> bool) \<Rightarrow> string \<Rightarrow> string" where
  "rstrip_chars P s = rev (dropWhile P (rev s))"

text \<open>\<^verbatim>\<open>s.strip()\<close>: drop whitespace on both sides.\<close>

definition strip :: "string \<Rightarrow> string" where
  "strip s = dropWhile is_space (rstrip_chars is_space s)"

text \<open>
  Cutting a string at every character that satisfies \<open>P\<close>. The result always has at least
  one fragment: \<^verbatim>\<open>"".split(",")\<close> is \<^verbatim>\<open>[""]\<close> and \<^verbatim>\<open>",".split(",")\<close> is
  \<^verbatim>\<open>["", ""]\<close>.
\<close>

fun splitP :: "(char \<Rightarrow> bool) \<Rightarrow> string \<Rightarrow> string list" where
  "splitP P [] = [[]]"
| "splitP P (c # cs) =
     (if P c then [] # splitP P cs
      else (case splitP P cs of [] \<Rightarrow> [[c]] | w # ws \<Rightarrow> (c # w) # ws))"

text \<open>\<^verbatim>\<open>s.split(sep)\<close> for a one-character separator.\<close>

definition split_sep :: "char \<Rightarrow> string \<Rightarrow> string list" where
  "split_sep sep s = splitP (\<lambda>c. c = sep) s"

text \<open>\<^verbatim>\<open>s.split()\<close>: the maximal runs of non-whitespace characters.\<close>

definition split_ws :: "string \<Rightarrow> string list" where
  "split_ws s = filter (\<lambda>w. w \<noteq> []) (splitP is_space s)"

section \<open>Tokenizer\<close>

text \<open>
  \<^verbatim>\<open>FEMAPParser._parse_csv_line_fast\<close>:
  \<^verbatim>\<open>
  stripped = line.rstrip(",").strip()
  if "," in stripped:
      parts = [p.strip() for p in stripped.split(",") if p.strip()]
  else:
      parts = stripped.split()
  return parts
  \<close>
\<close>

definition parse_csv_line_fast :: "string \<Rightarrow> string list" where
  "parse_csv_line_fast line =
     (let stripped = strip (rstrip_chars (\<lambda>c. c = CHR '','') line) in
      if CHR '','' \<in> set stripped
      then map strip (filter (\<lambda>p. strip p \<noteq> []) (split_sep CHR '','' stripped))
      else split_ws stripped)"

text \<open>The public wrapper \<^verbatim>\<open>FEMAPParser.parse_csv_line\<close> only forwards.\<close>

definition parse_csv_line :: "string \<Rightarrow> string list" where
  "parse_csv_line line = parse_csv_line_fast line"


section \<open>Conversion failures and C integers\<close>

text \<open>
  The extractors convert fields with \<^verbatim>\<open>int(...)\<close> and \<^verbatim>\<open>float(...)\<close> and store the
  results in variables declared \<^verbatim>\<open>cdef int\<close> and \<^verbatim>\<open>cdef double\<close>. Two exceptions can
  leave a conversion: \<^verbatim>\<open>ValueError\<close> when the text is not a number, and
  \<^verbatim>\<open>OverflowError\<close> when the Python integer does not fit the 32-bit C \<^verbatim>\<open>int\<close> it is
  assigned to. Every list index in the source is guarded by a length test, so
  \<^verbatim>\<open>IndexError\<close> never arises and has no constructor here.
\<close>

datatype error = ValueError | OverflowError

definition bind_err :: "'e + 'a \<Rightarrow> ('a \<Rightarrow> 'e + 'b) \<Rightarrow> 'e + 'b" where
  "bind_err m f = (case m of Inl e \<Rightarrow> Inl e | Inr v \<Rightarrow> f v)"

text \<open>
  Python's \<^verbatim>\<open>int(str)\<close> and \<^verbatim>\<open>float(str)\<close> are builtins, not code of the repository:
  the model takes them as parameters (\<open>None\<close> is \<^verbatim>\<open>ValueError\<close>), so every theorem holds
  for whatever literals the interpreter accepts. The type \<open>'f\<close> stands for C doubles.
\<close>

type_synonym int_parser = "string \<Rightarrow> int option"
type_synonym 'f float_parser = "string \<Rightarrow> 'f option"

text \<open>\<^verbatim>\<open>x = int(s)\<close> for \<^verbatim>\<open>cdef int x\<close>.\<close>

definition c_int :: "int_parser \<Rightarrow> string \<Rightarrow> error + int" where
  "c_int pint s =
     (case pint s of
        None \<Rightarrow> Inl ValueError
      | Some v \<Rightarrow> if - 2147483648 \<le> v \<and> v \<le> 2147483647 then Inr v else Inl OverflowError)"

text \<open>\<^verbatim>\<open>x = float(s)\<close> for \<^verbatim>\<open>cdef double x\<close>.\<close>

definition c_double :: "'f float_parser \<Rightarrow> string \<Rightarrow> error + 'f" where
  "c_double pfloat s = (case pfloat s of None \<Rightarrow> Inl ValueError | Some v \<Rightarrow> Inr v)"

text \<open>Arithmetic on \<^verbatim>\<open>cdef int\<close> values is C arithmetic on 32 bits: results wrap.\<close>

definition wrap32 :: "int \<Rightarrow> int" where
  "wrap32 x = (x + 2147483648) mod 4294967296 - 2147483648"

subsection \<open>Decimal literals, for evaluating the model on concrete files\<close>

text \<open>
  \<open>dec_int\<close> and \<open>dec_float\<close> read plain ASCII decimal literals (optional sign, digits,
  and for \<open>dec_float\<close> an optional fraction) and reject everything else. On the literals
  they accept they return the number Python returns; they are used to instantiate the
  parser parameters at concrete inputs.
\<close>

definition digit_of :: "char \<Rightarrow> int option" where
  "digit_of c = (let n = (of_char c :: int) in if 48 \<le> n \<and> n \<le> 57 then Some (n - 48) else None)"

fun dec_digits :: "int \<Rightarrow> string \<Rightarrow> int option" where
  "dec_digits acc [] = Some acc"
| "dec_digits acc (c # cs) =
     (case digit_of c of None \<Rightarrow> None | Some d \<Rightarrow> dec_digits (10 * acc + d) cs)"

definition dec_nat :: "string \<Rightarrow> int option" where
  "dec_nat s = (if s = [] then None else dec_digits 0 s)"

definition dec_int :: int_parser where
  "dec_int s =
     (case strip s of
        [] \<Rightarrow> None
      | c # cs \<Rightarrow>
          if c = CHR ''-'' then map_option uminus (dec_nat cs)
          else if c = CHR ''+'' then dec_nat cs
          else dec_nat (c # cs))"

definition dec_unsigned :: "string \<Rightarrow> rat option" where
  "dec_unsigned s =
     (let ip = takeWhile (\<lambda>c. c \<noteq> CHR ''.'') s;
          fp = drop 1 (dropWhile (\<lambda>c. c \<noteq> CHR ''.'') s)
      in if ip = [] \<and> fp = [] then None
         else (case (dec_digits 0 ip, dec_digits 0 fp) of
                 (Some a, Some b) \<Rightarrow> Some (of_int a + of_int b / 10 ^ length fp)
               | _ \<Rightarrow> None))"

definition dec_float :: "rat float_parser" where
  "dec_float s =
     (case strip s of
        [] \<Rightarrow> None
      | c # cs \<Rightarrow>
          if c = CHR ''-'' then map_option uminus (dec_unsigned cs)
          else if c = CHR ''+'' then dec_unsigned cs
          else dec_unsigned (c # cs))"

section \<open>Block scanner\<close>

definition BLOCK_DELIMITER :: string where
  "BLOCK_DELIMITER = ''   -1''"

text \<open>\<^verbatim>\<open>line.rstrip("\n")\<close>\<close>

definition rstrip_nl :: "string \<Rightarrow> string" where
  "rstrip_nl s = rstrip_chars (\<lambda>c. c = CHR 0x0A) s"

record FEMAPBlock =
  block_id :: int
  lines :: "string list"

text \<open>\<^verbatim>\<open>self.blocks\<close>: a dictionary from block ID to the list of blocks with that ID.\<close>

type_synonym blocks = "int \<rightharpoonup> FEMAPBlock list"

text \<open>
  The inner loop of \<^verbatim>\<open>_parse\<close> (source lines 84-90): collect lines up to the next
  delimiter, which is consumed. Returns the block lines and the lines left to scan.
\<close>

fun read_block :: "string list \<Rightarrow> string list \<Rightarrow> string list \<times> string list" where
  "read_block [] block_lines = (block_lines, [])"
| "read_block (l # rest) block_lines =
     (let line = rstrip_nl l in
      if line = BLOCK_DELIMITER then (block_lines, rest)
      else read_block rest (block_lines @ [line]))"

text \<open>Source lines 93-96: append the block to the list stored under its ID.\<close>

definition store_block :: "int \<Rightarrow> string list \<Rightarrow> blocks \<Rightarrow> blocks" where
  "store_block bid block_lines blocks =
     (let block = \<lparr>block_id = bid, lines = block_lines\<rparr> in
      blocks(bid \<mapsto> (case blocks bid of None \<Rightarrow> [] | Some bs \<Rightarrow> bs) @ [block]))"

text \<open>
  Source line 73: the test of the doubled-delimiter guard, on the line that follows a
  boundary (\<^verbatim>\<open>next_line = lines[i + 1].strip()\<close>, then \<^verbatim>\<open>next_line == "-1"\<close>).
\<close>

definition double_delimiter :: "string \<Rightarrow> bool" where
  "double_delimiter l \<longleftrightarrow> strip l = ''-1''"

lemma read_block_length: "length (snd (read_block ls acc)) \<le> length ls"
  by (induction ls arbitrary: acc) (auto simp: Let_def le_SucI)

text \<open>
  \<^verbatim>\<open>FEMAPParser._parse\<close>, the outer loop (source lines 63-103), on the lines not yet
  scanned (\<^verbatim>\<open>lines[i:]\<close>). A block ID outside the C \<^verbatim>\<open>int\<close> range raises
  \<^verbatim>\<open>OverflowError\<close>, which \<^verbatim>\<open>except ValueError\<close> does not catch.
\<close>

function parse_loop :: "int_parser \<Rightarrow> string list \<Rightarrow> blocks \<Rightarrow> error + blocks" where
  "parse_loop pint [] blocks = Inr blocks"
| "parse_loop pint (l # rest) blocks =
     (if rstrip_nl l = BLOCK_DELIMITER then
        (case rest of
           [] \<Rightarrow> parse_loop pint rest blocks
         | nl # rest' \<Rightarrow>
             if double_delimiter nl then parse_loop pint rest blocks
             else (case c_int pint (strip nl) of
                     Inr bid \<Rightarrow>
                       parse_loop pint (snd (read_block rest' []))
                         (store_block bid (fst (read_block rest' [])) blocks)
                   | Inl ValueError \<Rightarrow> parse_loop pint rest blocks
                   | Inl OverflowError \<Rightarrow> Inl OverflowError))
      else parse_loop pint rest blocks)"
  by pat_completeness auto
termination
proof (relation "measure (\<lambda>(pint, ls, blocks). length ls)")
  show "wf (measure (\<lambda>(pint, ls, blocks). length ls))" by simp
next
  fix pint l rest blocks nl rest' x2
  show "((pint, snd (read_block rest' []), store_block x2 (fst (read_block rest' [])) blocks),
         (pint, l # rest, blocks)) \<in> measure (\<lambda>(pint, ls, blocks). length ls)"
    if "rest = nl # rest'"
    using read_block_length[of rest' "[]"] that by simp
qed auto

text \<open>The constructor runs \<^verbatim>\<open>_parse\<close> on an empty dictionary; \<^verbatim>\<open>parse()\<close> returns it.\<close>

definition parse :: "int_parser \<Rightarrow> string list \<Rightarrow> error + blocks" where
  "parse pint file_lines = parse_loop pint file_lines Map.empty"

definition get_blocks :: "blocks \<Rightarrow> int \<Rightarrow> FEMAPBlock list" where
  "get_blocks blocks bid = (case blocks bid of None \<Rightarrow> [] | Some bs \<Rightarrow> bs)"

section \<open>Typed extractors\<close>

subsection \<open>Header (block 100)\<close>

record header =
  header_title :: string
  header_version :: string

text \<open>
  \<^verbatim>\<open>FEMAPParser.get_header\<close> (source lines 149-170); \<open>None\<close> is the \<^verbatim>\<open>None\<close> the method
  returns when block 100 is absent or has fewer than two lines.
\<close>

definition get_header :: "blocks \<Rightarrow> header option" where
  "get_header blocks =
     (case get_blocks blocks 100 of
        [] \<Rightarrow> None
      | block # _ \<Rightarrow>
          if length (lines block) < 2 then None
          else (let title = strip (lines block ! 0);
                    version = strip (lines block ! 1)
                in Some \<lparr>header_title = (if title \<noteq> ''<NULL>'' then title else []),
                         header_version = version\<rparr>))"

subsection \<open>Nodes (block 403)\<close>

type_synonym 'f coords = "'f \<times> 'f \<times> 'f"

text \<open>The body of the \<^verbatim>\<open>try\<close> of \<^verbatim>\<open>get_nodes\<close> (source lines 192-195).\<close>

definition node_record ::
  "int_parser \<Rightarrow> 'f float_parser \<Rightarrow> string list \<Rightarrow> error + (int \<times> 'f coords)" where
  "node_record pint pfloat parts =
     bind_err (c_int pint (parts ! 0)) (\<lambda>node_id.
     bind_err (c_double pfloat (parts ! 11)) (\<lambda>x.
     bind_err (c_double pfloat (parts ! 12)) (\<lambda>y.
     bind_err (c_double pfloat (parts ! 13)) (\<lambda>z.
     Inr (node_id, (x, y, z))))))"

text \<open>\<^verbatim>\<open>for line in block.lines\<close> of \<^verbatim>\<open>get_nodes\<close> (source lines 188-198).\<close>

fun nodes_lines ::
  "int_parser \<Rightarrow> 'f float_parser \<Rightarrow> string list \<Rightarrow> (int \<rightharpoonup> 'f coords)
     \<Rightarrow> error + (int \<rightharpoonup> 'f coords)" where
  "nodes_lines pint pfloat [] nodes = Inr nodes"
| "nodes_lines pint pfloat (line # rest) nodes =
     (let parts = parse_csv_line_fast line in
      if 14 \<le> length parts then
        (case node_record pint pfloat parts of
           Inr (node_id, xyz) \<Rightarrow> nodes_lines pint pfloat rest (nodes(node_id \<mapsto> xyz))
         | Inl ValueError \<Rightarrow> nodes_lines pint pfloat rest nodes
         | Inl OverflowError \<Rightarrow> Inl OverflowError)
      else nodes_lines pint pfloat rest nodes)"

text \<open>\<^verbatim>\<open>for block in all_blocks\<close>.\<close>

fun nodes_blocks ::
  "int_parser \<Rightarrow> 'f float_parser \<Rightarrow> FEMAPBlock list \<Rightarrow> (int \<rightharpoonup> 'f coords)
     \<Rightarrow> error + (int \<rightharpoonup> 'f coords)" where
  "nodes_blocks pint pfloat [] nodes = Inr nodes"
| "nodes_blocks pint pfloat (block # all_blocks) nodes =
     bind_err (nodes_lines pint pfloat (lines block) nodes) (nodes_blocks pint pfloat all_blocks)"

definition get_nodes ::
  "int_parser \<Rightarrow> 'f float_parser \<Rightarrow> blocks \<Rightarrow> error + (int \<rightharpoonup> 'f coords)" where
  "get_nodes pint pfloat blocks = nodes_blocks pint pfloat (get_blocks blocks 403) Map.empty"

text \<open>
  \<^verbatim>\<open>get_nodes_arrays\<close> (source lines 202-236) runs the same loops and appends to
  \<^verbatim>\<open>node_list\<close> and \<^verbatim>\<open>coord_list\<close>.
\<close>

fun nodes_arrays_lines ::
  "int_parser \<Rightarrow> 'f float_parser \<Rightarrow> string list \<Rightarrow> int list \<times> 'f coords list
     \<Rightarrow> error + (int list \<times> 'f coords list)" where
  "nodes_arrays_lines pint pfloat [] acc = Inr acc"
| "nodes_arrays_lines pint pfloat (line # rest) (node_list, coord_list) =
     (let parts = parse_csv_line_fast line in
      if 14 \<le> length parts then
        (case node_record pint pfloat parts of
           Inr (node_id, xyz) \<Rightarrow>
             nodes_arrays_lines pint pfloat rest (node_list @ [node_id], coord_list @ [xyz])
         | Inl ValueError \<Rightarrow> nodes_arrays_lines pint pfloat rest (node_list, coord_list)
         | Inl OverflowError \<Rightarrow> Inl OverflowError)
      else nodes_arrays_lines pint pfloat rest (node_list, coord_list))"

fun nodes_arrays_blocks ::
  "int_parser \<Rightarrow> 'f float_parser \<Rightarrow> FEMAPBlock list \<Rightarrow> int list \<times> 'f coords list
     \<Rightarrow> error + (int list \<times> 'f coords list)" where
  "nodes_arrays_blocks pint pfloat [] acc = Inr acc"
| "nodes_arrays_blocks pint pfloat (block # all_blocks) acc =
     bind_err (nodes_arrays_lines pint pfloat (lines block) acc)
       (nodes_arrays_blocks pint pfloat all_blocks)"

text \<open>
  The two lists become NumPy arrays (source lines 233-234). The second is assigned to a
  variable declared \<^verbatim>\<open>np.ndarray[np.float64_t, ndim=2]\<close>: Cython validates the buffer
  on assignment and raises \<^verbatim>\<open>ValueError\<close> when the number of dimensions differs.
  \<^verbatim>\<open>np.array(coord_list)\<close> has two dimensions for a non-empty list of triples and one
  dimension for the empty list, so the assignment raises exactly when no node was read.
\<close>

definition get_nodes_arrays ::
  "int_parser \<Rightarrow> 'f float_parser \<Rightarrow> blocks \<Rightarrow> error + (int list \<times> 'f coords list)" where
  "get_nodes_arrays pint pfloat blocks =
     bind_err (nodes_arrays_blocks pint pfloat (get_blocks blocks 403) ([], []))
       (\<lambda>(node_list, coord_list).
          if coord_list = [] then Inl ValueError else Inr (node_list, coord_list))"

subsection \<open>Title slots\<close>

text \<open>
  The title of a property, an output set and an output vector is read by the same
  statements (source lines 262-266, 454-458, 504-508), \<open>r\<close> being \<^verbatim>\<open>block.lines[i:]\<close>:
  \<^verbatim>\<open>
  title = ""
  if i + 1 < n_lines:
      title = block.lines[i + 1].strip().rstrip(",")
      if title == "<NULL>":
          title = ""
  \<close>
\<close>

definition title_slot :: "string list \<Rightarrow> string" where
  "title_slot r =
     (if 1 < length r then
        (let title = rstrip_chars (\<lambda>c. c = CHR '','') (strip (r ! 1)) in
         if title = ''<NULL>'' then [] else title)
      else [])"

subsection \<open>Properties (block 402)\<close>

record property =
  prop_material_id :: int
  prop_title :: string

definition property_record :: "int_parser \<Rightarrow> string list \<Rightarrow> error + (int \<times> property)" where
  "property_record pint r =
     (let parts = parse_csv_line_fast (r ! 0) in
      bind_err (c_int pint (parts ! 0)) (\<lambda>prop_id.
      bind_err (c_int pint (parts ! 2)) (\<lambda>mat_id.
      Inr (prop_id, \<lparr>prop_material_id = mat_id, prop_title = title_slot r\<rparr>))))"

text \<open>The \<^verbatim>\<open>while i < n_lines\<close> loop of \<^verbatim>\<open>get_properties\<close> (source lines 255-273).\<close>

fun properties_loop ::
  "int_parser \<Rightarrow> string list \<Rightarrow> (int \<rightharpoonup> property) \<Rightarrow> error + (int \<rightharpoonup> property)" where
  "properties_loop pint [] properties = Inr properties"
| "properties_loop pint (line # rest) properties =
     (if 3 \<le> length (parse_csv_line_fast line) then
        (case property_record pint (line # rest) of
           Inr (prop_id, p) \<Rightarrow> properties_loop pint (drop 6 rest) (properties(prop_id \<mapsto> p))
         | Inl ValueError \<Rightarrow> properties_loop pint rest properties
         | Inl OverflowError \<Rightarrow> Inl OverflowError)
      else properties_loop pint rest properties)"

fun properties_blocks ::
  "int_parser \<Rightarrow> FEMAPBlock list \<Rightarrow> (int \<rightharpoonup> property) \<Rightarrow> error + (int \<rightharpoonup> property)" where
  "properties_blocks pint [] properties = Inr properties"
| "properties_blocks pint (block # all_blocks) properties =
     bind_err (properties_loop pint (lines block) properties) (properties_blocks pint all_blocks)"

definition get_properties :: "int_parser \<Rightarrow> blocks \<Rightarrow> error + (int \<rightharpoonup> property)" where
  "get_properties pint blocks = properties_blocks pint (get_blocks blocks 402) Map.empty"

subsection \<open>Elements (block 404)\<close>

record element =
  elem_id :: int
  elem_prop_id :: int
  elem_topology :: int
  elem_nodes :: "int list"

text \<open>
  \<^verbatim>\<open>for nstr in nodes1: n = int(nstr); if n != 0: nodes.append(n)\<close> (source lines 304-307
  and 311-314): the non-zero node numbers of one connectivity line, or the first failure.
\<close>

fun node_numbers :: "int_parser \<Rightarrow> string list \<Rightarrow> error + int list" where
  "node_numbers pint [] = Inr []"
| "node_numbers pint (nstr # strs) =
     bind_err (c_int pint nstr) (\<lambda>n.
     bind_err (node_numbers pint strs) (\<lambda>ns.
     Inr (if n \<noteq> 0 then n # ns else ns)))"

text \<open>The body of the \<^verbatim>\<open>try\<close> of \<^verbatim>\<open>get_elements\<close> (source lines 297-321).\<close>

definition element_record :: "int_parser \<Rightarrow> string list \<Rightarrow> error + element" where
  "element_record pint r =
     (let parts = parse_csv_line_fast (r ! 0) in
      bind_err (c_int pint (parts ! 0)) (\<lambda>eid.
      bind_err (c_int pint (parts ! 2)) (\<lambda>pid.
      bind_err (c_int pint (parts ! 4)) (\<lambda>topo.
      bind_err (if 1 < length r then node_numbers pint (parse_csv_line_fast (r ! 1)) else Inr [])
        (\<lambda>nodes1.
      bind_err (if 2 < length r then node_numbers pint (parse_csv_line_fast (r ! 2)) else Inr [])
        (\<lambda>nodes2.
      Inr \<lparr>elem_id = eid, elem_prop_id = pid, elem_topology = topo,
           elem_nodes = nodes1 @ nodes2\<rparr>))))))"

text \<open>The \<^verbatim>\<open>while i < n_lines\<close> loop of \<^verbatim>\<open>get_elements\<close> (source lines 293-326).\<close>

fun elements_loop :: "int_parser \<Rightarrow> string list \<Rightarrow> element list \<Rightarrow> error + element list" where
  "elements_loop pint [] elements = Inr elements"
| "elements_loop pint (line # rest) elements =
     (if 5 \<le> length (parse_csv_line_fast line) then
        (case element_record pint (line # rest) of
           Inr e \<Rightarrow> elements_loop pint (drop 6 rest) (elements @ [e])
         | Inl ValueError \<Rightarrow> elements_loop pint rest elements
         | Inl OverflowError \<Rightarrow> Inl OverflowError)
      else elements_loop pint rest elements)"

fun elements_blocks :: "int_parser \<Rightarrow> FEMAPBlock list \<Rightarrow> element list \<Rightarrow> error + element list" where
  "elements_blocks pint [] elements = Inr elements"
| "elements_blocks pint (block # all_blocks) elements =
     bind_err (elements_loop pint (lines block) elements) (elements_blocks pint all_blocks)"

definition get_elements :: "int_parser \<Rightarrow> blocks \<Rightarrow> error + element list" where
  "get_elements pint blocks = elements_blocks pint (get_blocks blocks 404) []"

subsection \<open>Materials (block 601)\<close>

text \<open>
  \<^verbatim>\<open>get_materials\<close> (source lines 400-428) stores \<^verbatim>\<open>{"id": mat_id}\<close> under \<^verbatim>\<open>mat_id\<close>;
  the stored dictionary is modelled by its only entry. Both branches of the \<^verbatim>\<open>try\<close>
  advance by one line.
\<close>

fun materials_loop :: "int_parser \<Rightarrow> string list \<Rightarrow> (int \<rightharpoonup> int) \<Rightarrow> error + (int \<rightharpoonup> int)" where
  "materials_loop pint [] materials = Inr materials"
| "materials_loop pint (line # rest) materials =
     (let parts = parse_csv_line_fast line in
      if 1 \<le> length parts then
        (case c_int pint (parts ! 0) of
           Inr mat_id \<Rightarrow> materials_loop pint rest (materials(mat_id \<mapsto> mat_id))
         | Inl ValueError \<Rightarrow> materials_loop pint rest materials
         | Inl OverflowError \<Rightarrow> Inl OverflowError)
      else materials_loop pint rest materials)"

fun materials_blocks ::
  "int_parser \<Rightarrow> FEMAPBlock list \<Rightarrow> (int \<rightharpoonup> int) \<Rightarrow> error + (int \<rightharpoonup> int)" where
  "materials_blocks pint [] materials = Inr materials"
| "materials_blocks pint (block # all_blocks) materials =
     bind_err (materials_loop pint (lines block) materials) (materials_blocks pint all_blocks)"

definition get_materials :: "int_parser \<Rightarrow> blocks \<Rightarrow> error + (int \<rightharpoonup> int)" where
  "get_materials pint blocks = materials_blocks pint (get_blocks blocks 601) Map.empty"

subsection \<open>Output sets (block 450)\<close>

record 'f output_set =
  set_title :: string
  set_value :: 'f

text \<open>The body of the \<^verbatim>\<open>try\<close> of \<^verbatim>\<open>get_output_sets\<close> (source lines 452-466).\<close>

definition output_set_record ::
  "int_parser \<Rightarrow> ('f::zero) float_parser \<Rightarrow> string list \<Rightarrow> error + (int \<times> 'f output_set)" where
  "output_set_record pint pfloat r =
     (let parts = parse_csv_line_fast (r ! 0) in
      bind_err (c_int pint (parts ! 0)) (\<lambda>set_id.
      bind_err (if 3 < length r then
                  (let value_parts = parse_csv_line_fast (r ! 3) in
                   if 1 \<le> length value_parts then c_double pfloat (value_parts ! 0) else Inr 0)
                else Inr 0) (\<lambda>value.
      Inr (set_id, \<lparr>set_title = title_slot r, set_value = value\<rparr>))))"

text \<open>The \<^verbatim>\<open>while i < n_lines\<close> loop of \<^verbatim>\<open>get_output_sets\<close> (source lines 448-471).\<close>

fun output_sets_loop ::
  "int_parser \<Rightarrow> ('f::zero) float_parser \<Rightarrow> string list \<Rightarrow> (int \<rightharpoonup> 'f output_set)
     \<Rightarrow> error + (int \<rightharpoonup> 'f output_set)" where
  "output_sets_loop pint pfloat [] output_sets = Inr output_sets"
| "output_sets_loop pint pfloat (line # rest) output_sets =
     (if 1 \<le> length (parse_csv_line_fast line) then
        (case output_set_record pint pfloat (line # rest) of
           Inr (set_id, s) \<Rightarrow>
             output_sets_loop pint pfloat (drop 5 rest) (output_sets(set_id \<mapsto> s))
         | Inl ValueError \<Rightarrow> output_sets_loop pint pfloat rest output_sets
         | Inl OverflowError \<Rightarrow> Inl OverflowError)
      else output_sets_loop pint pfloat rest output_sets)"

fun output_sets_blocks ::
  "int_parser \<Rightarrow> ('f::zero) float_parser \<Rightarrow> FEMAPBlock list \<Rightarrow> (int \<rightharpoonup> 'f output_set)
     \<Rightarrow> error + (int \<rightharpoonup> 'f output_set)" where
  "output_sets_blocks pint pfloat [] output_sets = Inr output_sets"
| "output_sets_blocks pint pfloat (block # all_blocks) output_sets =
     bind_err (output_sets_loop pint pfloat (lines block) output_sets)
       (output_sets_blocks pint pfloat all_blocks)"

definition get_output_sets ::
  "int_parser \<Rightarrow> ('f::zero) float_parser \<Rightarrow> blocks \<Rightarrow> error + (int \<rightharpoonup> 'f output_set)" where
  "get_output_sets pint pfloat blocks =
     output_sets_blocks pint pfloat (get_blocks blocks 450) Map.empty"

subsection \<open>Output vectors (block 1051)\<close>

record 'f output_vector =
  vec_set_id :: int
  vec_vec_id :: int
  vec_title :: string
  vec_ent_type :: "int option"
  vec_results :: "int \<rightharpoonup> 'f"

text \<open>
  The terminator test (source lines 524-526 and 545-547):
  \<^verbatim>\<open>len(parts) >= 2 and parts[0] == "-1" and parts[1] == "0."\<close>
\<close>

definition is_terminator :: "string list \<Rightarrow> bool" where
  "is_terminator parts \<longleftrightarrow> 2 \<le> length parts \<and> parts ! 0 = ''-1'' \<and> parts ! 1 = ''0.''"

text \<open>\<^verbatim>\<open>[float(v) for v in vs]\<close>\<close>

fun floats :: "'f float_parser \<Rightarrow> string list \<Rightarrow> error + 'f list" where
  "floats pfloat [] = Inr []"
| "floats pfloat (v # vs) =
     bind_err (c_double pfloat v) (\<lambda>x.
     bind_err (floats pfloat vs) (\<lambda>xs.
     Inr (x # xs)))"

text \<open>
  Inside the \<^verbatim>\<open>try\<close> of \<^verbatim>\<open>get_output_vectors\<close> the line index moves before the
  handler can run, and the handler advances it by one from where it stands. A failure
  is therefore recorded with the lines not yet consumed when it was raised
  (\<^verbatim>\<open>block.lines[i:]\<close>).
\<close>

definition raised_at :: "string list \<Rightarrow> error + 'a \<Rightarrow> (error \<times> string list) + 'a" where
  "raised_at pos m = (case m of Inl e \<Rightarrow> Inl (e, pos) | Inr v \<Rightarrow> Inr v)"

text \<open>Format 1 (source lines 531-533): \<^verbatim>\<open>entity_id = int(...); value = float(...)\<close>.\<close>

definition point_record ::
  "int_parser \<Rightarrow> 'f float_parser \<Rightarrow> string list \<Rightarrow> error + (int \<times> 'f)" where
  "point_record pint pfloat result_parts =
     bind_err (c_int pint (result_parts ! 0)) (\<lambda>entity_id.
     bind_err (c_double pfloat (result_parts ! 1)) (\<lambda>v.
     Inr (entity_id, v)))"

text \<open>Format 2, first line (source lines 537-539).\<close>

definition run_record ::
  "int_parser \<Rightarrow> 'f float_parser \<Rightarrow> string list \<Rightarrow> error + (int \<times> int \<times> 'f list)" where
  "run_record pint pfloat result_parts =
     bind_err (c_int pint (result_parts ! 0)) (\<lambda>start_id.
     bind_err (c_int pint (result_parts ! 1)) (\<lambda>end_id.
     bind_err (floats pfloat (drop 2 result_parts)) (\<lambda>vs.
     Inr (start_id, end_id, vs))))"

text \<open>\<^verbatim>\<open>entity_count = end_id - start_id + 1\<close> on C \<^verbatim>\<open>int\<close>s (source line 541).\<close>

definition entity_count_of :: "int \<Rightarrow> int \<Rightarrow> int" where
  "entity_count_of start_id end_id = wrap32 (wrap32 (end_id - start_id) + 1)"

text \<open>
  The continuation loop (source lines 543-550):
  \<^verbatim>\<open>
  while len(values) < entity_count and i < n_lines:
      cont_parts = parse(block.lines[i])
      if terminator(cont_parts): break
      values.extend([float(v) for v in cont_parts])
      i += 1
  \<close>
  It returns the values gathered and the lines left; the terminator is not consumed.
\<close>

fun read_continuation ::
  "'f float_parser \<Rightarrow> int \<Rightarrow> 'f list \<Rightarrow> string list
     \<Rightarrow> (error \<times> string list) + ('f list \<times> string list)" where
  "read_continuation pfloat entity_count vals [] = Inr (vals, [])"
| "read_continuation pfloat entity_count vals (l # rest) =
     (if int (length vals) < entity_count then
        (let cont_parts = parse_csv_line_fast l in
         if is_terminator cont_parts then Inr (vals, l # rest)
         else (case floats pfloat cont_parts of
                 Inl e \<Rightarrow> Inl (e, l # rest)
               | Inr more_vals \<Rightarrow> read_continuation pfloat entity_count (vals @ more_vals) rest))
      else Inr (vals, l # rest))"

text \<open>
  Source lines 552-553:
  \<^verbatim>\<open>for offset in range(min(len(values), entity_count)):
      results[start_id + offset] = values[offset]\<close>
\<close>

definition assign_run :: "int \<Rightarrow> int \<Rightarrow> 'f list \<Rightarrow> (int \<rightharpoonup> 'f) \<Rightarrow> (int \<rightharpoonup> 'f)" where
  "assign_run start_id entity_count vals results =
     fold (\<lambda>offset res. res(wrap32 (start_id + int offset) \<mapsto> vals ! offset))
       [0 ..< nat (min (int (length vals)) entity_count)] results"

lemma read_continuation_length:
  "read_continuation pfloat n vals ls = Inr (vals', ls') \<Longrightarrow> length ls' \<le> length ls"
  by (induction ls arbitrary: vals)
     (auto simp: Let_def le_SucI split: if_splits sum.splits)

text \<open>
  The result-record loop (source lines 520-555). It ends at the terminator, which it
  consumes, or at the end of the block.
\<close>

function results_loop ::
  "int_parser \<Rightarrow> 'f float_parser \<Rightarrow> string list \<Rightarrow> (int \<rightharpoonup> 'f)
     \<Rightarrow> (error \<times> string list) + ((int \<rightharpoonup> 'f) \<times> string list)" where
  "results_loop pint pfloat [] results = Inr (results, [])"
| "results_loop pint pfloat (l # rest) results =
     (let result_parts = parse_csv_line_fast l in
      if is_terminator result_parts then Inr (results, rest)
      else if length result_parts = 2 then
        (case point_record pint pfloat result_parts of
           Inl e \<Rightarrow> Inl (e, l # rest)
         | Inr (entity_id, v) \<Rightarrow> results_loop pint pfloat rest (results(entity_id \<mapsto> v)))
      else if 2 < length result_parts then
        (case run_record pint pfloat result_parts of
           Inl e \<Rightarrow> Inl (e, l # rest)
         | Inr (start_id, end_id, vals) \<Rightarrow>
             (case read_continuation pfloat (entity_count_of start_id end_id) vals rest of
                Inl failure \<Rightarrow> Inl failure
              | Inr (vals', rest') \<Rightarrow>
                  results_loop pint pfloat rest'
                    (assign_run start_id (entity_count_of start_id end_id) vals' results)))
      else results_loop pint pfloat rest results)"
  by pat_completeness auto
termination
  by (relation "measure (\<lambda>(pint, pfloat, ls, results). length ls)")
     (auto dest: read_continuation_length simp: less_Suc_eq_le)

text \<open>The header part of the \<^verbatim>\<open>try\<close> (source lines 501-516).\<close>

definition vector_header ::
  "int_parser \<Rightarrow> string list \<Rightarrow> error + (int \<times> int \<times> string \<times> int option)" where
  "vector_header pint r =
     (let parts = parse_csv_line_fast (r ! 0) in
      bind_err (c_int pint (parts ! 0)) (\<lambda>set_id.
      bind_err (c_int pint (parts ! 1)) (\<lambda>vec_id.
      bind_err (if 5 < length r then
                  (let line6_parts = parse_csv_line_fast (r ! 5) in
                   if 4 \<le> length line6_parts
                   then bind_err (c_int pint (line6_parts ! 3)) (\<lambda>ent_type_val. Inr (Some ent_type_val))
                   else Inr None)
                else Inr None) (\<lambda>ent_type.
      Inr (set_id, vec_id, title_slot r, ent_type)))))"

lemma read_continuation_failure:
  "read_continuation pfloat n vals ls = Inl (e, pos) \<Longrightarrow> pos \<noteq> [] \<and> length pos \<le> length ls"
  by (induction ls arbitrary: vals)
     (auto simp: Let_def le_SucI split: if_splits sum.splits)

lemma results_loop_length:
  "case results_loop pint pfloat ls results of
     Inr (res, ls') \<Rightarrow> length ls' \<le> length ls
   | Inl (e, pos) \<Rightarrow> pos \<noteq> [] \<and> length pos \<le> length ls"
proof (induction "length ls" arbitrary: ls results rule: less_induct)
  case less
  show ?case
  proof (cases ls)
    case Nil
    then show ?thesis by simp
  next
    case (Cons l rest)
    have IH: "case results_loop pint pfloat ls0 r of
           Inr (res, ls2) \<Rightarrow> length ls2 \<le> length rest
         | Inl (e, pos) \<Rightarrow> pos \<noteq> [] \<and> length pos \<le> length rest"
      if "length ls0 \<le> length rest" for ls0 r
      using less[of ls0 r] that Cons by (auto split: sum.splits prod.splits)
    let ?parts = "parse_csv_line_fast l"
    consider (fin) "is_terminator ?parts"
      | (point) "\<not> is_terminator ?parts" "length ?parts = 2"
      | (run) "\<not> is_terminator ?parts" "length ?parts \<noteq> 2" "2 < length ?parts"
      | (skip) "\<not> is_terminator ?parts" "length ?parts \<noteq> 2" "\<not> 2 < length ?parts"
      by blast
    then show ?thesis
    proof cases
      case fin
      then show ?thesis using Cons by simp
    next
      case point
      show ?thesis
      proof (cases "point_record pint pfloat ?parts")
        case (Inl e)
        then show ?thesis using Cons point by simp
      next
        case (Inr t)
        obtain k v where t: "t = (k, v)" by (cases t) auto
        from IH[of rest "results(k \<mapsto> v)"] show ?thesis
          using Cons point Inr t by (auto split: sum.splits prod.splits)
      qed
    next
      case run
      show ?thesis
      proof (cases "run_record pint pfloat ?parts")
        case (Inl e)
        then show ?thesis using Cons run by simp
      next
        case (Inr t)
        obtain s en vs where t: "t = (s, en, vs)" by (cases t) auto
        show ?thesis
        proof (cases "read_continuation pfloat (entity_count_of s en) vs rest")
          case (Inl f)
          obtain e1 p1 where f: "f = (e1, p1)" by (cases f) auto
          from read_continuation_failure[OF Inl[unfolded f]]
          show ?thesis using Cons run Inr t Inl f by simp
        next
          case r2: (Inr u)
          obtain vs' rest' where u: "u = (vs', rest')" by (cases u) auto
          have len: "length rest' \<le> length rest"
            using read_continuation_length[OF r2[unfolded u]] .
          from IH[OF len, of "assign_run s (entity_count_of s en) vs' results"]
          show ?thesis
            using Cons run Inr t r2 u by (auto split: sum.splits prod.splits)
        qed
      qed
    next
      case skip
      from IH[of rest results] show ?thesis
        using Cons skip by (auto split: sum.splits prod.splits)
    qed
  qed
qed

text \<open>
  The \<^verbatim>\<open>while i < n_lines\<close> loop of \<^verbatim>\<open>get_output_vectors\<close> (source lines 497-568).
  \<^verbatim>\<open>except (ValueError, IndexError): i += 1\<close> resumes one line after the line index
  at the failure, and the vector under construction is not appended.
\<close>

function vectors_loop ::
  "int_parser \<Rightarrow> 'f float_parser \<Rightarrow> string list \<Rightarrow> 'f output_vector list
     \<Rightarrow> error + 'f output_vector list" where
  "vectors_loop pint pfloat [] output_vectors = Inr output_vectors"
| "vectors_loop pint pfloat (line # rest) output_vectors =
     (if 2 \<le> length (parse_csv_line_fast line) then
        (case vector_header pint (line # rest) of
           Inl ValueError \<Rightarrow> vectors_loop pint pfloat rest output_vectors
         | Inl OverflowError \<Rightarrow> Inl OverflowError
         | Inr (set_id, vec_id, title, ent_type) \<Rightarrow>
             (case results_loop pint pfloat (drop 6 rest) Map.empty of
                Inl (ValueError, pos) \<Rightarrow> vectors_loop pint pfloat (tl pos) output_vectors
              | Inl (OverflowError, pos) \<Rightarrow> Inl OverflowError
              | Inr (results, rest') \<Rightarrow>
                  vectors_loop pint pfloat rest'
                    (output_vectors @
                      [\<lparr>vec_set_id = set_id, vec_vec_id = vec_id, vec_title = title,
                        vec_ent_type = ent_type, vec_results = results\<rparr>])))
      else vectors_loop pint pfloat rest output_vectors)"
  by pat_completeness auto
termination
proof (relation "measure (\<lambda>(pint, pfloat, ls, vs). length ls)", goal_cases)
  case 1
  show ?case by simp
next
  case (2 pint pfloat line rest output_vectors)
  then show ?case by simp
next
  case (3 pint pfloat line rest output_vectors x2 set_id y vec_id ya title ent_type x1 x1a pos)
  have "length pos \<le> length (drop 6 rest)"
    using results_loop_length[where pint = pint and pfloat = pfloat and ls = "drop 6 rest"
        and results = Map.empty] 3 by auto
  then show ?case by (cases pos) auto
next
  case (4 pint pfloat line rest output_vectors x2 set_id y vec_id ya title ent_type x2a results rest')
  have "length rest' \<le> length (drop 6 rest)"
    using results_loop_length[where pint = pint and pfloat = pfloat and ls = "drop 6 rest"
        and results = Map.empty] 4 by auto
  then show ?case by auto
next
  case (5 pint pfloat line rest output_vectors)
  then show ?case by simp
qed

fun vectors_blocks ::
  "int_parser \<Rightarrow> 'f float_parser \<Rightarrow> FEMAPBlock list \<Rightarrow> 'f output_vector list
     \<Rightarrow> error + 'f output_vector list" where
  "vectors_blocks pint pfloat [] output_vectors = Inr output_vectors"
| "vectors_blocks pint pfloat (block # all_blocks) output_vectors =
     bind_err (vectors_loop pint pfloat (lines block) output_vectors)
       (vectors_blocks pint pfloat all_blocks)"

definition get_output_vectors ::
  "int_parser \<Rightarrow> 'f float_parser \<Rightarrow> blocks \<Rightarrow> error + 'f output_vector list" where
  "get_output_vectors pint pfloat blocks =
     vectors_blocks pint pfloat (get_blocks blocks 1051) []"

subsection \<open>Output vectors as arrays (block 1051)\<close>

text \<open>
  \<^verbatim>\<open>get_output_vectors_arrays\<close> (source lines 572-684) runs the same result-record loop
  and appends to the two lists \<^verbatim>\<open>entity_ids_list\<close> and \<^verbatim>\<open>values_list\<close> (source lines
  660-662):
  \<^verbatim>\<open>for offset in range(min(len(values), entity_count)):
      entity_ids_list.append(start_id + offset)
      values_list.append(values[offset])\<close>
\<close>

definition append_run :: "int \<Rightarrow> int \<Rightarrow> 'f list \<Rightarrow> int list \<times> 'f list \<Rightarrow> int list \<times> 'f list" where
  "append_run start_id entity_count vals acc =
     fold (\<lambda>offset (entity_ids_list, values_list).
             (entity_ids_list @ [wrap32 (start_id + int offset)], values_list @ [vals ! offset]))
       [0 ..< nat (min (int (length vals)) entity_count)] acc"

text \<open>The result-record loop of \<^verbatim>\<open>get_output_vectors_arrays\<close> (source lines 636-664).\<close>

function results_arrays_loop ::
  "int_parser \<Rightarrow> 'f float_parser \<Rightarrow> string list \<Rightarrow> int list \<times> 'f list
     \<Rightarrow> (error \<times> string list) + ((int list \<times> 'f list) \<times> string list)" where
  "results_arrays_loop pint pfloat [] acc = Inr (acc, [])"
| "results_arrays_loop pint pfloat (l # rest) (entity_ids_list, values_list) =
     (let result_parts = parse_csv_line_fast l in
      if is_terminator result_parts then Inr ((entity_ids_list, values_list), rest)
      else if length result_parts = 2 then
        (case point_record pint pfloat result_parts of
           Inl e \<Rightarrow> Inl (e, l # rest)
         | Inr (entity_id, v) \<Rightarrow>
             results_arrays_loop pint pfloat rest (entity_ids_list @ [entity_id], values_list @ [v]))
      else if 2 < length result_parts then
        (case run_record pint pfloat result_parts of
           Inl e \<Rightarrow> Inl (e, l # rest)
         | Inr (start_id, end_id, vals) \<Rightarrow>
             (case read_continuation pfloat (entity_count_of start_id end_id) vals rest of
                Inl failure \<Rightarrow> Inl failure
              | Inr (vals', rest') \<Rightarrow>
                  results_arrays_loop pint pfloat rest'
                    (append_run start_id (entity_count_of start_id end_id) vals'
                       (entity_ids_list, values_list))))
      else results_arrays_loop pint pfloat rest (entity_ids_list, values_list))"
  by pat_completeness auto
termination
  by (relation "measure (\<lambda>(pint, pfloat, ls, acc). length ls)")
     (auto dest: read_continuation_length simp: less_Suc_eq_le)

text \<open>Both result loops leave at the same line, with the same exception if any.\<close>

lemma results_arrays_loop_position:
  "map_sum id snd (results_arrays_loop pint pfloat ls acc) =
   map_sum id snd (results_loop pint pfloat ls results)"
proof (induction "length ls" arbitrary: ls acc results rule: less_induct)
  case less
  show ?case
  proof (cases ls)
    case Nil
    then show ?thesis by simp
  next
    case (Cons l rest)
    obtain ids vals where acc: "acc = (ids, vals)" by (cases acc) auto
    have IH: "map_sum id snd (results_arrays_loop pint pfloat ls0 acc0) =
              map_sum id snd (results_loop pint pfloat ls0 r0)"
      if "length ls0 \<le> length rest" for ls0 acc0 r0
      using less[of ls0 acc0 r0] that Cons by simp
    let ?parts = "parse_csv_line_fast l"
    consider (fin) "is_terminator ?parts"
      | (point) "\<not> is_terminator ?parts" "length ?parts = 2"
      | (run) "\<not> is_terminator ?parts" "length ?parts \<noteq> 2" "2 < length ?parts"
      | (skip) "\<not> is_terminator ?parts" "length ?parts \<noteq> 2" "\<not> 2 < length ?parts"
      by blast
    then show ?thesis
    proof cases
      case fin
      then show ?thesis using Cons acc by simp
    next
      case point
      show ?thesis
      proof (cases "point_record pint pfloat ?parts")
        case (Inl e)
        then show ?thesis using Cons acc point by simp
      next
        case (Inr t)
        obtain k v where t: "t = (k, v)" by (cases t) auto
        show ?thesis
          using Cons acc point Inr t IH[of rest "(ids @ [k], vals @ [v])" "results(k \<mapsto> v)"]
          by simp
      qed
    next
      case run
      show ?thesis
      proof (cases "run_record pint pfloat ?parts")
        case (Inl e)
        then show ?thesis using Cons acc run by simp
      next
        case (Inr t)
        obtain s en vs where t: "t = (s, en, vs)" by (cases t) auto
        show ?thesis
        proof (cases "read_continuation pfloat (entity_count_of s en) vs rest")
          case (Inl f)
          then show ?thesis using Cons acc run Inr t by simp
        next
          case r2: (Inr u)
          obtain vs' rest' where u: "u = (vs', rest')" by (cases u) auto
          have len: "length rest' \<le> length rest"
            using read_continuation_length[OF r2[unfolded u]] .
          show ?thesis
            using Cons acc run Inr t r2 u
              IH[OF len, of "append_run s (entity_count_of s en) vs' (ids, vals)"
                 "assign_run s (entity_count_of s en) vs' results"]
            by simp
        qed
      qed
    next
      case skip
      then show ?thesis using Cons acc IH[of rest "(ids, vals)" results] by simp
    qed
  qed
qed

lemma results_arrays_loop_length:
  "case results_arrays_loop pint pfloat ls acc of
     Inr (res, ls') \<Rightarrow> length ls' \<le> length ls
   | Inl (e, pos) \<Rightarrow> pos \<noteq> [] \<and> length pos \<le> length ls"
  using results_arrays_loop_position[of pint pfloat ls acc Map.empty]
    results_loop_length[where pint = pint and pfloat = pfloat and ls = ls and results = Map.empty]
  by (cases "results_arrays_loop pint pfloat ls acc";
      cases "results_loop pint pfloat ls Map.empty") auto

text \<open>
  The loop that passes over the result stream of a vector that the filters reject
  (source lines 609-615 and 619-625): it consumes the lines up to and including the
  terminator.
\<close>

fun skip_to_marker :: "string list \<Rightarrow> string list" where
  "skip_to_marker [] = []"
| "skip_to_marker (l # rest) =
     (if is_terminator (parse_csv_line_fast l) then rest else skip_to_marker rest)"

lemma skip_to_marker_length: "length (skip_to_marker ls) \<le> length ls"
  by (induction ls) (simp_all add: le_SucI)

text \<open>
  The header part of the \<^verbatim>\<open>try\<close> (source lines 602-634) for the filters
  \<^verbatim>\<open>set_id_filter\<close> and \<^verbatim>\<open>vec_id_filter\<close>, which are C \<^verbatim>\<open>int\<close>s. \<open>None\<close> stands for a vector
  that a filter rejects; otherwise the result holds \<^verbatim>\<open>set_id\<close>, \<^verbatim>\<open>vec_id\<close> and
  \<^verbatim>\<open>ent_type_val if has_ent_type else -1\<close>.
\<close>

definition vector_arrays_header ::
  "int_parser \<Rightarrow> int \<Rightarrow> int \<Rightarrow> string list \<Rightarrow> error + (int \<times> int \<times> int) option" where
  "vector_arrays_header pint set_id_filter vec_id_filter r =
     (let parts = parse_csv_line_fast (r ! 0) in
      bind_err (c_int pint (parts ! 0)) (\<lambda>set_id.
      bind_err (c_int pint (parts ! 1)) (\<lambda>vec_id.
      if 0 \<le> set_id_filter \<and> set_id \<noteq> set_id_filter then Inr None
      else if 0 \<le> vec_id_filter \<and> vec_id \<noteq> vec_id_filter then Inr None
      else
        bind_err (if 5 < length r then
                    (let line6_parts = parse_csv_line_fast (r ! 5) in
                     if 4 \<le> length line6_parts
                     then c_int pint (line6_parts ! 3)
                     else Inr (- 1))
                  else Inr (- 1)) (\<lambda>ent_type.
        Inr (Some (set_id, vec_id, ent_type))))))"

text \<open>
  The \<^verbatim>\<open>while i < n_lines\<close> loop of \<^verbatim>\<open>get_output_vectors_arrays\<close> (source lines 597-682)
  on the lines of one block. It returns the arrays of the first vector that passes the
  filters and whose result loop ends, or \<open>None\<close> when the lines are used up.
\<close>

function vectors_arrays_loop ::
  "int_parser \<Rightarrow> 'f float_parser \<Rightarrow> int \<Rightarrow> int \<Rightarrow> string list
     \<Rightarrow> error + (int list \<times> 'f list \<times> int \<times> int \<times> int) option" where
  "vectors_arrays_loop pint pfloat set_id_filter vec_id_filter [] = Inr None"
| "vectors_arrays_loop pint pfloat set_id_filter vec_id_filter (line # rest) =
     (if 2 \<le> length (parse_csv_line_fast line) then
        (case vector_arrays_header pint set_id_filter vec_id_filter (line # rest) of
           Inl ValueError \<Rightarrow> vectors_arrays_loop pint pfloat set_id_filter vec_id_filter rest
         | Inl OverflowError \<Rightarrow> Inl OverflowError
         | Inr None \<Rightarrow>
             vectors_arrays_loop pint pfloat set_id_filter vec_id_filter
               (skip_to_marker (drop 6 rest))
         | Inr (Some (set_id, vec_id, ent_type)) \<Rightarrow>
             (case results_arrays_loop pint pfloat (drop 6 rest) ([], []) of
                Inl (ValueError, pos) \<Rightarrow>
                  vectors_arrays_loop pint pfloat set_id_filter vec_id_filter (tl pos)
              | Inl (OverflowError, pos) \<Rightarrow> Inl OverflowError
              | Inr ((entity_ids_list, values_list), rest') \<Rightarrow>
                  Inr (Some (entity_ids_list, values_list, set_id, vec_id, ent_type))))
      else vectors_arrays_loop pint pfloat set_id_filter vec_id_filter rest)"
  by pat_completeness auto
termination
proof (relation "measure (\<lambda>(pint, pfloat, sf, vf, ls). length ls)", goal_cases)
  case 1
  show ?case by simp
next
  case (2 pint pfloat sf vf line rest)
  then show ?case by simp
next
  case (3 pint pfloat sf vf line rest x2)
  have "length (skip_to_marker (drop 6 rest)) \<le> length (drop 6 rest)"
    by (rule skip_to_marker_length)
  then show ?case by simp
next
  case (4 pint pfloat sf vf line rest x2 x2a set_id y vec_id ent_type x1 x1a pos)
  have "length pos \<le> length (drop 6 rest)"
    using results_arrays_loop_length[where pint = pint and pfloat = pfloat
        and ls = "drop 6 rest" and acc = "([], [])"] 4 by auto
  then show ?case by (cases pos) auto
next
  case (5 pint pfloat sf vf line rest)
  then show ?case by simp
qed

text \<open>
  \<^verbatim>\<open>for block in all_blocks\<close>: the \<^verbatim>\<open>return\<close> inside the loop ends the method at the first
  vector found; \<open>None\<close> is the final \<^verbatim>\<open>return (None, None, -1, -1, -1)\<close>.
\<close>

fun vectors_arrays_blocks ::
  "int_parser \<Rightarrow> 'f float_parser \<Rightarrow> int \<Rightarrow> int \<Rightarrow> FEMAPBlock list
     \<Rightarrow> error + (int list \<times> 'f list \<times> int \<times> int \<times> int) option" where
  "vectors_arrays_blocks pint pfloat set_id_filter vec_id_filter [] = Inr None"
| "vectors_arrays_blocks pint pfloat set_id_filter vec_id_filter (block # all_blocks) =
     bind_err (vectors_arrays_loop pint pfloat set_id_filter vec_id_filter (lines block))
       (\<lambda>found. case found of
                  Some arrays \<Rightarrow> Inr (Some arrays)
                | None \<Rightarrow> vectors_arrays_blocks pint pfloat set_id_filter vec_id_filter all_blocks)"

definition get_output_vectors_arrays ::
  "int_parser \<Rightarrow> 'f float_parser \<Rightarrow> blocks \<Rightarrow> int \<Rightarrow> int
     \<Rightarrow> error + (int list \<times> 'f list \<times> int \<times> int \<times> int) option" where
  "get_output_vectors_arrays pint pfloat blocks set_id_filter vec_id_filter =
     vectors_arrays_blocks pint pfloat set_id_filter vec_id_filter (get_blocks blocks 1051)"

section \<open>Notions used to state and to prove the properties\<close>

text \<open>Replacing every comma of a line by a single space.\<close>

definition commas_to_spaces :: "string \<Rightarrow> string" where
  "commas_to_spaces s = map (\<lambda>c. if c = CHR '','' then CHR '' '' else c) s"

text \<open>The non-empty fragments between the characters that satisfy \<open>P\<close>.\<close>

definition words_by :: "(char \<Rightarrow> bool) \<Rightarrow> string \<Rightarrow> string list" where
  "words_by P s = filter (\<lambda>w. w \<noteq> []) (splitP P s)"

abbreviation (input) comma_or_space :: "char \<Rightarrow> bool" where
  "comma_or_space \<equiv> (\<lambda>c. is_space c \<or> c = CHR '','')"

text \<open>
  \<^verbatim>\<open>f.readlines()\<close> on a file opened in text mode returns every line with its line end
  translated to one newline character: the file whose lines are \<open>ls\<close>. Text mode ends a
  line at a line feed and at a carriage return, so \<open>ls\<close> stands for the lines of a file
  only when no line of it contains either character.
\<close>

definition file_of :: "string list \<Rightarrow> string list" where
  "file_of ls = map (\<lambda>l. l @ [CHR 0x0A]) ls"

subsection \<open>The trace of the property loop\<close>

text \<open>
  The trace of the loop of \<^verbatim>\<open>get_properties\<close> on the lines of one block: the assignments
  \<^verbatim>\<open>properties[prop_id] = {...}\<close> it performs, in the order it performs them. It is
  \<open>properties_loop\<close> with the dictionary replaced by the list of what is stored, and serves
  the proofs about the dictionary; no property is stated in terms of it.
\<close>

fun property_assignments_loop :: "int_parser \<Rightarrow> string list \<Rightarrow> error + (int \<times> property) list" where
  "property_assignments_loop pint [] = Inr []"
| "property_assignments_loop pint (line # rest) =
     (if 3 \<le> length (parse_csv_line_fast line) then
        (case property_record pint (line # rest) of
           Inr rec \<Rightarrow>
             bind_err (property_assignments_loop pint (drop 6 rest)) (\<lambda>recs. Inr (rec # recs))
         | Inl ValueError \<Rightarrow> property_assignments_loop pint rest
         | Inl OverflowError \<Rightarrow> Inl OverflowError)
      else property_assignments_loop pint rest)"

text \<open>The trace of \<^verbatim>\<open>for block in all_blocks\<close>: the traces of the blocks, one after the other.\<close>

fun property_assignments :: "int_parser \<Rightarrow> FEMAPBlock list \<Rightarrow> error + (int \<times> property) list" where
  "property_assignments pint [] = Inr []"
| "property_assignments pint (block # all_blocks) =
     bind_err (property_assignments_loop pint (lines block)) (\<lambda>recs.
     bind_err (property_assignments pint all_blocks) (\<lambda>recs'.
     Inr (recs @ recs')))"

subsection \<open>Files made of top-level blocks\<close>

text \<open>
  A top-level block as it stands in a file: the ID line that follows the opening
  boundary, the ID it denotes, and the content lines up to the closing boundary.
\<close>

record file_block =
  fb_id_line :: string
  fb_id :: int
  fb_lines :: "string list"

text \<open>The lines of a block, and of a file that consists of blocks.\<close>

definition block_text :: "file_block \<Rightarrow> string list" where
  "block_text b = file_of ([BLOCK_DELIMITER, fb_id_line b] @ fb_lines b @ [BLOCK_DELIMITER])"

definition file_text :: "file_block list \<Rightarrow> string list" where
  "file_text bs = concat (map block_text bs)"

text \<open>
  A block is well formed when its lines are single lines (no line feed and no carriage
  return inside), no content line is a boundary, and the ID line converts to the block's
  ID without being taken for a doubled delimiter.
\<close>

definition wf_file_block :: "int_parser \<Rightarrow> file_block \<Rightarrow> bool" where
  "wf_file_block pint b \<longleftrightarrow>
     list_all (\<lambda>l. CHR 0x0A \<notin> set l) (fb_id_line b # fb_lines b) \<and>
     list_all (\<lambda>l. CHR 0x0D \<notin> set l) (fb_id_line b # fb_lines b) \<and>
     BLOCK_DELIMITER \<notin> set (fb_lines b) \<and>
     \<not> double_delimiter (fb_id_line b) \<and>
     c_int pint (strip (fb_id_line b)) = Inr (fb_id b)"

text \<open>The dictionary of blocks grouped by ID, each list in order of appearance.\<close>

definition scanned_blocks :: "file_block list \<Rightarrow> blocks" where
  "scanned_blocks bs k =
     (case filter (\<lambda>b. fb_id b = k) bs of
        [] \<Rightarrow> None
      | cs \<Rightarrow> Some (map (\<lambda>b. \<lparr>block_id = k, lines = fb_lines b\<rparr>) cs))"

subsection \<open>Sample blocks\<close>

definition nodes_block_a :: file_block where
  "nodes_block_a =
     \<lparr>fb_id_line = ''   403'', fb_id = 403,
      fb_lines = [''1,0,0,1,46,0,0,0,0,0,0,0.,0.,0.,'', ''2,0,0,1,46,0,0,0,0,0,0,1.,0.,0.,'']\<rparr>"

definition nodes_block_b :: file_block where
  "nodes_block_b =
     \<lparr>fb_id_line = ''   403'', fb_id = 403,
      fb_lines = [''3,0,0,1,46,0,0,0,0,0,0,0.,1.,0.,'']\<rparr>"

definition header_block :: file_block where
  "header_block = \<lparr>fb_id_line = ''   100'', fb_id = 100, fb_lines = [''<NULL>'', ''4.41,'']\<rparr>"

definition element_lines_a :: "string list" where
  "element_lines_a =
     [''10,124,7,25,2,1,0,0,'', ''1,2,3,0,0,0,0,0,0,0,'', ''0,0,0,0,0,0,0,0,0,0,'',
      ''0.,0.,0.,'', ''0.,0.,0.,'', ''0.,0.,0.,'', ''0,0,0,0,0,0,0,0,0,0,0,0,0,0,0,0,'']"

definition element_lines_b :: "string list" where
  "element_lines_b =
     [''11,124,7,25,2,1,0,0,'', ''2,3,4,0,0,0,0,0,0,0,'', ''0,0,0,0,0,0,0,0,0,0,'',
      ''0.,0.,0.,'', ''0.,0.,0.,'', ''0.,0.,0.,'', ''0,0,0,0,0,0,0,0,0,0,0,0,0,0,0,0,'']"

definition elements_block :: "string list \<Rightarrow> file_block" where
  "elements_block ls = \<lparr>fb_id_line = ''   404'', fb_id = 404, fb_lines = ls\<rparr>"

subsection \<open>Failing result lines\<close>

text \<open>
  A line of a result stream raises \<open>e\<close> when it is converted, as a two-field record, as
  the first line of a run, or as a continuation line.
\<close>

definition result_line_fails :: "int_parser \<Rightarrow> 'f float_parser \<Rightarrow> error \<Rightarrow> string \<Rightarrow> bool" where
  "result_line_fails pint pfloat e l \<longleftrightarrow>
     (length (parse_csv_line_fast l) = 2 \<and>
        point_record pint pfloat (parse_csv_line_fast l) = Inl e) \<or>
     (2 < length (parse_csv_line_fast l) \<and>
        run_record pint pfloat (parse_csv_line_fast l) = Inl e) \<or>
     floats pfloat (parse_csv_line_fast l) = Inl e"

definition vector_header_lines :: "string list" where
  "vector_header_lines =
     [''1,60011,1,'', ''Disp,'', ''0.,-1.,0.,'', ''0,0,0,0,0,0,0,0,0,0,'', ''0,0,0,0,0,0,0,0,0,0,'',
      ''0,0,3,7,'', ''0,1,1,'']"

definition vectors_block :: "string list \<Rightarrow> file_block" where
  "vectors_block ls = \<lparr>fb_id_line = ''   1051'', fb_id = 1051, fb_lines = ls\<rparr>"

subsection \<open>Blocks cut in two\<close>

text \<open>
  The scan of an extractor passes over the first \<open>n\<close> lines of \<open>ys\<close> when it goes through
  them one line at a time: each of them has too few fields to be taken for the first line
  of a record, or the conversion of the record that starts there raises \<^verbatim>\<open>ValueError\<close>.
\<close>

fun properties_pass_over :: "int_parser \<Rightarrow> nat \<Rightarrow> string list \<Rightarrow> bool" where
  "properties_pass_over pint 0 ys = True"
| "properties_pass_over pint (Suc n) [] = True"
| "properties_pass_over pint (Suc n) (l # rest) =
     ((length (parse_csv_line_fast l) < 3 \<or> property_record pint (l # rest) = Inl ValueError) \<and>
      properties_pass_over pint n rest)"

fun elements_pass_over :: "int_parser \<Rightarrow> nat \<Rightarrow> string list \<Rightarrow> bool" where
  "elements_pass_over pint 0 ys = True"
| "elements_pass_over pint (Suc n) [] = True"
| "elements_pass_over pint (Suc n) (l # rest) =
     ((length (parse_csv_line_fast l) < 5 \<or> element_record pint (l # rest) = Inl ValueError) \<and>
      elements_pass_over pint n rest)"

fun output_sets_pass_over :: "int_parser \<Rightarrow> ('f::zero) float_parser \<Rightarrow> nat \<Rightarrow> string list \<Rightarrow> bool" where
  "output_sets_pass_over pint pfloat 0 ys = True"
| "output_sets_pass_over pint pfloat (Suc n) [] = True"
| "output_sets_pass_over pint pfloat (Suc n) (l # rest) =
     ((length (parse_csv_line_fast l) < 1 \<or>
       output_set_record pint pfloat (l # rest) = Inl ValueError) \<and>
      output_sets_pass_over pint pfloat n rest)"

text \<open>
  A block with the lines \<open>xs @ ys\<close> is cut after \<open>xs\<close>. The scan of the second block rejoins
  the scan of the uncut block when every record that the loop, run on \<open>xs\<close> alone, accepts
  either has its whole stride in \<open>xs\<close> (seven lines for a property or an element, six for
  an output set), or is the last one and reaches past the cut in this way: it is read the
  same with the lines of \<open>ys\<close> after it, and the scan passes over the lines of \<open>ys\<close> that
  belong to its stride. The predicates walk \<open>xs\<close> as the loops do: one line forward after a
  line that is not taken for a record or whose conversion raises \<^verbatim>\<open>ValueError\<close>, one stride
  forward after an accepted record. They are about the scan, not about the format of the
  lines: after a seven-line record with a malformed field the scan goes on at the second
  line of that record, and a later line of it may be accepted as a record whose stride
  reaches past the cut.
\<close>

fun properties_cut_rejoins :: "int_parser \<Rightarrow> string list \<Rightarrow> string list \<Rightarrow> bool" where
  "properties_cut_rejoins pint [] ys = True"
| "properties_cut_rejoins pint (line # rest) ys =
     (if 3 \<le> length (parse_csv_line_fast line) then
        (case property_record pint (line # rest) of
           Inr rec \<Rightarrow>
             if 6 \<le> length rest then properties_cut_rejoins pint (drop 6 rest) ys
             else property_record pint (line # rest @ ys) = Inr rec \<and>
                  properties_pass_over pint (6 - length rest) ys
         | Inl ValueError \<Rightarrow> properties_cut_rejoins pint rest ys
         | Inl OverflowError \<Rightarrow> True)
      else properties_cut_rejoins pint rest ys)"

fun elements_cut_rejoins :: "int_parser \<Rightarrow> string list \<Rightarrow> string list \<Rightarrow> bool" where
  "elements_cut_rejoins pint [] ys = True"
| "elements_cut_rejoins pint (line # rest) ys =
     (if 5 \<le> length (parse_csv_line_fast line) then
        (case element_record pint (line # rest) of
           Inr e \<Rightarrow>
             if 6 \<le> length rest then elements_cut_rejoins pint (drop 6 rest) ys
             else element_record pint (line # rest @ ys) = Inr e \<and>
                  elements_pass_over pint (6 - length rest) ys
         | Inl ValueError \<Rightarrow> elements_cut_rejoins pint rest ys
         | Inl OverflowError \<Rightarrow> True)
      else elements_cut_rejoins pint rest ys)"

fun output_sets_cut_rejoins ::
  "int_parser \<Rightarrow> ('f::zero) float_parser \<Rightarrow> string list \<Rightarrow> string list \<Rightarrow> bool" where
  "output_sets_cut_rejoins pint pfloat [] ys = True"
| "output_sets_cut_rejoins pint pfloat (line # rest) ys =
     (if 1 \<le> length (parse_csv_line_fast line) then
        (case output_set_record pint pfloat (line # rest) of
           Inr s \<Rightarrow>
             if 5 \<le> length rest then output_sets_cut_rejoins pint pfloat (drop 5 rest) ys
             else output_set_record pint pfloat (line # rest @ ys) = Inr s \<and>
                  output_sets_pass_over pint pfloat (5 - length rest) ys
         | Inl ValueError \<Rightarrow> output_sets_cut_rejoins pint pfloat rest ys
         | Inl OverflowError \<Rightarrow> True)
      else output_sets_cut_rejoins pint pfloat rest ys)"

text \<open>
  A result stream is closed inside the lines \<open>ls\<close> when the result loop, started on
  \<open>ls\<close>, leaves through its terminator or through a conversion failure, and not by
  running out of lines. The predicate follows \<open>results_loop\<close>.
\<close>

function results_closed :: "int_parser \<Rightarrow> 'f float_parser \<Rightarrow> string list \<Rightarrow> bool" where
  "results_closed pint pfloat [] = False"
| "results_closed pint pfloat (l # rest) =
     (let result_parts = parse_csv_line_fast l in
      if is_terminator result_parts then True
      else if length result_parts = 2 then
        (case point_record pint pfloat result_parts of
           Inl e \<Rightarrow> True
         | Inr rec \<Rightarrow> results_closed pint pfloat rest)
      else if 2 < length result_parts then
        (case run_record pint pfloat result_parts of
           Inl e \<Rightarrow> True
         | Inr (start_id, end_id, vals) \<Rightarrow>
             (case read_continuation pfloat (entity_count_of start_id end_id) vals rest of
                Inl failure \<Rightarrow> True
              | Inr (vals', rest') \<Rightarrow> results_closed pint pfloat rest'))
      else results_closed pint pfloat rest)"
  by pat_completeness auto
termination
  by (relation "measure (\<lambda>(pint, pfloat, ls). length ls)")
     (auto dest: read_continuation_length simp: less_Suc_eq_le)

text \<open>
  For the output vectors the scan of the second block rejoins the scan of the uncut block
  when every vector header that the loop, run on \<open>xs\<close> alone, accepts has its seven lines
  in \<open>xs\<close> and a result stream that either is closed inside \<open>xs\<close>, or runs to the end of
  \<open>xs\<close> with the cut followed at once by the terminator, which the scan for vector headers
  passes over (its second field \<^verbatim>\<open>0.\<close> does not convert to a vector ID). A cut with
  nothing after it changes nothing. The predicate walks \<open>xs\<close> as \<open>vectors_loop\<close> does.
\<close>

function vectors_cut_rejoins ::
  "int_parser \<Rightarrow> 'f float_parser \<Rightarrow> string list \<Rightarrow> string list \<Rightarrow> bool" where
  "vectors_cut_rejoins pint pfloat [] ys = True"
| "vectors_cut_rejoins pint pfloat (line # rest) ys =
     (if 2 \<le> length (parse_csv_line_fast line) then
        (case vector_header pint (line # rest) of
           Inl ValueError \<Rightarrow> vectors_cut_rejoins pint pfloat rest ys
         | Inl OverflowError \<Rightarrow> True
         | Inr h \<Rightarrow>
             ys = [] \<or>
             6 \<le> length rest \<and>
             (case results_loop pint pfloat (drop 6 rest) Map.empty of
                Inl (ValueError, pos) \<Rightarrow> vectors_cut_rejoins pint pfloat (tl pos) ys
              | Inl (OverflowError, pos) \<Rightarrow> True
              | Inr (results, rest') \<Rightarrow>
                  if results_closed pint pfloat (drop 6 rest)
                  then vectors_cut_rejoins pint pfloat rest' ys
                  else is_terminator (parse_csv_line_fast (hd ys)) \<and>
                       vector_header pint ys = Inl ValueError))
      else vectors_cut_rejoins pint pfloat rest ys)"
  by pat_completeness auto
termination
proof (relation "measure (\<lambda>(pint, pfloat, ls, ys). length ls)", goal_cases)
  case 1
  show ?case by simp
next
  case (2 pint pfloat line rest ys)
  then show ?case by simp
next
  case (3 pint pfloat line rest ys x2 x1 x1a pos)
  have "length pos \<le> length (drop 6 rest)"
    using results_loop_length[where pint = pint and pfloat = pfloat and ls = "drop 6 rest"
        and results = Map.empty] 3 by auto
  then show ?case by (cases pos) auto
next
  case (4 pint pfloat line rest ys x2 x2a results rest')
  have "length rest' \<le> length (drop 6 rest)"
    using results_loop_length[where pint = pint and pfloat = pfloat and ls = "drop 6 rest"
        and results = Map.empty] 4 by auto
  then show ?case by auto
next
  case (5 pint pfloat line rest ys)
  then show ?case by simp
qed

text \<open>The file with one block, and the file with that block cut in two after \<open>xs\<close>.\<close>

definition unsplit_file ::
  "file_block list \<Rightarrow> file_block \<Rightarrow> string list \<Rightarrow> string list \<Rightarrow> file_block list \<Rightarrow> string list" where
  "unsplit_file front b xs ys back = file_text (front @ [b\<lparr>fb_lines := xs @ ys\<rparr>] @ back)"

definition split_file ::
  "file_block list \<Rightarrow> file_block \<Rightarrow> string list \<Rightarrow> string list \<Rightarrow> file_block list \<Rightarrow> string list" where
  "split_file front b xs ys back =
     file_text (front @ [b\<lparr>fb_lines := xs\<rparr>, b\<lparr>fb_lines := ys\<rparr>] @ back)"

definition property_lines_a :: "string list" where
  "property_lines_a =
     [''7,24,1,25,1,0,'', ''Solid,'', ''0,0,0,0,'', ''8,'', ''0,0,0,0,0,0,0,0,'', ''5,'',
      ''0.,0.,0.,0.,0.,'']"

definition property_lines_b :: "string list" where
  "property_lines_b =
     [''8,24,2,25,1,0,'', ''<NULL>,'', ''0,0,0,0,'', ''8,'', ''0,0,0,0,0,0,0,0,'', ''5,'',
      ''0.,0.,0.,0.,0.,'']"

definition output_set_lines_a :: "string list" where
  "output_set_lines_a = [''1,'', ''Step 1,'', ''0,3,'', ''0.01,'', ''1,'', ''<NULL>,'']"

definition output_set_lines_b :: "string list" where
  "output_set_lines_b = [''2,'', ''Step 2,'', ''0,3,'', ''0.02,'', ''1,'', ''<NULL>,'']"

definition vector_lines_a :: "string list" where
  "vector_lines_a = vector_header_lines @ [''1,1.5,'', ''2,2.5,'', ''-1,0.,'']"

definition vector_lines_b :: "string list" where
  "vector_lines_b = vector_header_lines @ [''5,8,1.0,2.0,3.0,4.0,'', ''-1,0.,'']"

definition properties_block :: "string list \<Rightarrow> file_block" where
  "properties_block ls = \<lparr>fb_id_line = ''   402'', fb_id = 402, fb_lines = ls\<rparr>"

definition output_sets_block :: "string list \<Rightarrow> file_block" where
  "output_sets_block ls = \<lparr>fb_id_line = ''   450'', fb_id = 450, fb_lines = ls\<rparr>"

subsection \<open>The records of the property blocks\<close>

text \<open>
  The content lines of a block taken seven at a time: the records of a block whose
  records have seven lines. The last record holds the lines that are left.
\<close>

fun records7 :: "string list \<Rightarrow> string list list" where
  "records7 [] = []"
| "records7 (l # ls) = (l # take 6 ls) # records7 (drop 6 ls)"

text \<open>The block-402 records of a file made of blocks, in file order.\<close>

definition property_records :: "file_block list \<Rightarrow> string list list" where
  "property_records bs = concat (map (\<lambda>b. records7 (fb_lines b)) (filter (\<lambda>b. fb_id b = 402) bs))"

text \<open>
  A property record is well formed when its first line has at least three fields and its
  ID and material ID convert. It is skipped whole when none of its lines can be taken for
  the first line of a record: each has fewer than three fields, or its ID or material ID
  field is not a number.
\<close>

definition wf_property_record :: "int_parser \<Rightarrow> string list \<Rightarrow> bool" where
  "wf_property_record pint r \<longleftrightarrow>
     3 \<le> length (parse_csv_line_fast (r ! 0)) \<and>
     (case property_record pint r of Inr x \<Rightarrow> True | Inl e \<Rightarrow> False)"

definition property_line_skipped :: "int_parser \<Rightarrow> string \<Rightarrow> bool" where
  "property_line_skipped pint l \<longleftrightarrow>
     length (parse_csv_line_fast l) < 3 \<or> property_record pint [l] = Inl ValueError"

definition skipped_property_record :: "int_parser \<Rightarrow> string list \<Rightarrow> bool" where
  "skipped_property_record pint r \<longleftrightarrow> list_all (property_line_skipped pint) r"

text \<open>
  The property ID with the material ID and the title of every well-formed block-402
  record of the file, in file order.
\<close>

definition declared_property :: "int_parser \<Rightarrow> string list \<Rightarrow> (int \<times> property) option" where
  "declared_property pint r =
     (if 3 \<le> length (parse_csv_line_fast (r ! 0)) then
        (case property_record pint r of Inr x \<Rightarrow> Some x | Inl e \<Rightarrow> None)
      else None)"

definition declared_properties :: "int_parser \<Rightarrow> file_block list \<Rightarrow> (int \<times> property) list" where
  "declared_properties pint bs = List.map_filter (declared_property pint) (property_records bs)"

text \<open>Sample property records: a second record for property 7, one that is skipped whole,
  and one with a malformed material ID whose third line can be taken for a record.\<close>

definition property_lines_c :: "string list" where
  "property_lines_c =
     [''7,24,3,25,1,0,'', ''Shell,'', ''0,0,0,0,'', ''8,'', ''0,0,0,0,0,0,0,0,'', ''5,'',
      ''0.,0.,0.,0.,0.,'']"

definition property_lines_skipped :: "string list" where
  "property_lines_skipped =
     [''x,24,1,25,1,0,'', ''Bad,'', ''x,0,0,0,'', ''8,'', ''x,0,0,0,0,0,0,0,'', ''5,'',
      ''0.,0.,0.,0.,0.,'']"

definition property_lines_malformed :: "string list" where
  "property_lines_malformed =
     [''7,24,x,25,1,0,'', ''Mid,'', ''0,0,0,0,'', ''8,'', ''0,0,0,0,0,0,0,0,'', ''5,'',
      ''0.,0.,0.,0.,0.,'']"

subsection \<open>What a block contributes\<close>

text \<open>
  The trace of the loop of \<^verbatim>\<open>get_output_sets\<close> on the lines of one block: the assignments
  \<^verbatim>\<open>output_sets[set_id] = {...}\<close> it performs, in the order it performs them. It is
  \<open>output_sets_loop\<close> with the dictionary replaced by the list of what is stored, and
  serves the proofs only.
\<close>

fun output_set_assignments_loop ::
  "int_parser \<Rightarrow> ('f::zero) float_parser \<Rightarrow> string list \<Rightarrow> error + (int \<times> 'f output_set) list" where
  "output_set_assignments_loop pint pfloat [] = Inr []"
| "output_set_assignments_loop pint pfloat (line # rest) =
     (if 1 \<le> length (parse_csv_line_fast line) then
        (case output_set_record pint pfloat (line # rest) of
           Inr rec \<Rightarrow>
             bind_err (output_set_assignments_loop pint pfloat (drop 5 rest))
               (\<lambda>recs. Inr (rec # recs))
         | Inl ValueError \<Rightarrow> output_set_assignments_loop pint pfloat rest
         | Inl OverflowError \<Rightarrow> Inl OverflowError)
      else output_set_assignments_loop pint pfloat rest)"

text \<open>
  What a block by itself contributes to a dictionary: the entry for the key \<open>k\<close> in the
  dictionary that the loop of the extractor returns when it is run on the lines of the
  block alone, starting from the empty dictionary. A block on which the loop raises
  contributes nothing.
\<close>

definition dict_entry :: "error + ('k \<rightharpoonup> 'v) \<Rightarrow> 'k \<Rightarrow> 'v option" where
  "dict_entry r k = (case r of Inr d \<Rightarrow> d k | Inl e \<Rightarrow> None)"

definition block_node :: "int_parser \<Rightarrow> 'f float_parser \<Rightarrow> file_block \<Rightarrow> int \<Rightarrow> 'f coords option" where
  "block_node pint pfloat b k = dict_entry (nodes_lines pint pfloat (fb_lines b) Map.empty) k"

definition block_property :: "int_parser \<Rightarrow> file_block \<Rightarrow> int \<Rightarrow> property option" where
  "block_property pint b k = dict_entry (properties_loop pint (fb_lines b) Map.empty) k"

definition block_output_set ::
  "int_parser \<Rightarrow> ('f::zero) float_parser \<Rightarrow> file_block \<Rightarrow> int \<Rightarrow> 'f output_set option" where
  "block_output_set pint pfloat b k =
     dict_entry (output_sets_loop pint pfloat (fb_lines b) Map.empty) k"

text \<open>
  A permutation \<open>bs'\<close> of the blocks \<open>bs\<close> keeps the entries of the blocks with the ID
  \<open>bid\<close> when, for every key, the blocks with that ID that hold the key keep their
  relative order, or all give the key the same entry.
\<close>

definition entries_kept ::
  "(file_block \<Rightarrow> 'k \<Rightarrow> 'v option) \<Rightarrow> int \<Rightarrow> file_block list \<Rightarrow> file_block list \<Rightarrow> bool" where
  "entries_kept entry bid bs' bs \<longleftrightarrow>
     (\<forall>k. filter (\<lambda>b. fb_id b = bid \<and> entry b k \<noteq> None) bs' =
            filter (\<lambda>b. fb_id b = bid \<and> entry b k \<noteq> None) bs \<or>
          (\<forall>b\<in>set bs. \<forall>b'\<in>set bs.
             fb_id b = bid \<and> fb_id b' = bid \<and> entry b k \<noteq> None \<and> entry b' k \<noteq> None \<longrightarrow>
             entry b k = entry b' k))"

text \<open>
  A block contributes elements (output vectors) unless the loop of the extractor, run on
  the lines of the block alone, returns the empty list.
\<close>

definition block_has_elements :: "int_parser \<Rightarrow> file_block \<Rightarrow> bool" where
  "block_has_elements pint b =
     (case elements_loop pint (fb_lines b) [] of Inr [] \<Rightarrow> False | _ \<Rightarrow> True)"

definition block_has_vectors :: "int_parser \<Rightarrow> 'f float_parser \<Rightarrow> file_block \<Rightarrow> bool" where
  "block_has_vectors pint pfloat b =
     (case vectors_loop pint pfloat (fb_lines b) [] of Inr [] \<Rightarrow> False | _ \<Rightarrow> True)"

text \<open>Sample blocks: node 1 at other coordinates, nodes 2 (as in the first sample block)
  and 3, output set 1 under another title, and two material blocks.\<close>

definition nodes_block_d :: file_block where
  "nodes_block_d =
     \<lparr>fb_id_line = ''   403'', fb_id = 403,
      fb_lines = [''2,0,0,1,46,0,0,0,0,0,0,1.,0.,0.,'', ''3,0,0,1,46,0,0,0,0,0,0,0.,1.,0.,'']\<rparr>"

definition nodes_block_c :: file_block where
  "nodes_block_c =
     \<lparr>fb_id_line = ''   403'', fb_id = 403,
      fb_lines = [''1,0,0,1,46,0,0,0,0,0,0,5.,5.,5.,'']\<rparr>"

definition output_set_lines_c :: "string list" where
  "output_set_lines_c = [''1,'', ''Step 9,'', ''0,3,'', ''0.09,'', ''1,'', ''<NULL>,'']"

definition materials_block_a :: file_block where
  "materials_block_a = \<lparr>fb_id_line = ''   601'', fb_id = 601, fb_lines = [''1,-601,55,'', ''2,-601,55,'']\<rparr>"

definition materials_block_b :: file_block where
  "materials_block_b = \<lparr>fb_id_line = ''   601'', fb_id = 601, fb_lines = [''2,-601,55,'', ''3,-601,55,'']\<rparr>"

text \<open>
  A sample file and a permutation of its blocks. The permutation exchanges the two node
  blocks (which both hold node 2, at the same coordinates), the two material blocks (which
  both hold material 2), the two property blocks (different property IDs), the two
  output-set blocks (different set IDs) and an empty element block with the block that
  holds the element.
\<close>

definition sample_file :: "file_block list" where
  "sample_file =
     [header_block, nodes_block_a, nodes_block_d, materials_block_a, materials_block_b,
      elements_block [], elements_block element_lines_a,
      properties_block property_lines_a, properties_block property_lines_b,
      output_sets_block output_set_lines_a, output_sets_block output_set_lines_b,
      vectors_block vector_lines_a]"

definition sample_file_permuted :: "file_block list" where
  "sample_file_permuted =
     [nodes_block_d, materials_block_b, nodes_block_a, header_block,
      elements_block element_lines_a, elements_block [], materials_block_a,
      properties_block property_lines_b, properties_block property_lines_a,
      output_sets_block output_set_lines_b, output_sets_block output_set_lines_a,
      vectors_block vector_lines_a]"

section \<open>Basic facts\<close>

lemma bind_err_simps [simp]:
  "bind_err (Inl e) f = Inl e"
  "bind_err (Inr v) f = f v"
  by (simp_all add: bind_err_def)

section \<open>Tokenizer: commas against spaces\<close>

lemma splitP_ne: "splitP P s \<noteq> []"
  by (induction s) (auto split: list.splits)

lemma splitP_repl: "splitP is_space (commas_to_spaces s) = splitP comma_or_space s"
  by (induction s) (auto simp: commas_to_spaces_def is_space_def split: list.splits)

lemma splitP_cong: "(\<forall>c\<in>set s. P c = Q c) \<Longrightarrow> splitP P s = splitP Q s"
  by (induction s) (auto split: list.splits)

lemma splitP_append: "splitP P (xs @ ys) = butlast (splitP P xs) @ [last (splitP P xs) @ hd (splitP P ys)] @ tl (splitP P ys)"
  apply (induction xs) 
   apply (cases "splitP P ys") apply (simp add: splitP_ne) apply simp
  apply (auto split: list.splits simp: splitP_ne)
  done

lemma splitP_all: "(\<forall>c\<in>set b. P c) \<Longrightarrow> splitP P b = replicate (Suc (length b)) []"
  by (induction b) auto

lemma splitP_none: "(\<forall>c\<in>set t. \<not> P c) \<Longrightarrow> splitP P t = [t]"
  by (induction t) auto

lemma words_by_left: "(\<forall>c\<in>set a. P c) \<Longrightarrow> words_by P (a @ s) = words_by P s"
  by (induction a) (auto simp: words_by_def)

lemma filter_butlast_last: "X \<noteq> [] \<Longrightarrow> filter f (butlast X @ [last X]) = filter f X"
  by simp

lemma words_by_right: 
  assumes "\<forall>c\<in>set b. P c" shows "words_by P (s @ b) = words_by P s"
proof -
  have "words_by P (s @ b) = filter (\<lambda>w. w \<noteq> []) (butlast (splitP P s) @ [last (splitP P s)])"
    using assms by (simp add: words_by_def splitP_append splitP_all)
  also have "\<dots> = words_by P s" using splitP_ne[of P s] by (simp add: words_by_def)
  finally show ?thesis .
qed

lemma splitP_Cons: "splitP P (c # cs) = (if P c then [] # splitP P cs else (c # hd (splitP P cs)) # tl (splitP P cs))"
  using splitP_ne[of P cs] by (auto split: list.splits)

lemma splitP_two_level:
  "hd (splitP (\<lambda>c. P c \<or> S c) s) = hd (splitP P (hd (splitP S s))) \<and>
   filter (\<lambda>w. w \<noteq> []) (tl (splitP (\<lambda>c. P c \<or> S c) s)) =
     filter (\<lambda>w. w \<noteq> []) (tl (splitP P (hd (splitP S s)))) @ concat (map (words_by P) (tl (splitP S s)))"
proof (induction s)
  case Nil
  show ?case by simp
next
  case (Cons c cs)
  let ?Q = "\<lambda>c. P c \<or> S c"
  obtain q qs where q: "splitP ?Q cs = q # qs" using splitP_ne[of ?Q cs] by (cases "splitP ?Q cs") auto
  obtain h t where h: "splitP S cs = h # t" using splitP_ne[of S cs] by (cases "splitP S cs") auto
  obtain p ps where p: "splitP P h = p # ps" using splitP_ne[of P h] by (cases "splitP P h") auto
  from Cons q h p have IH: "q = p" "filter (\<lambda>w. w \<noteq> []) qs = filter (\<lambda>w. w \<noteq> []) ps @ concat (map (words_by P) t)"
    by simp_all
  show ?case
  proof (cases "S c")
    case True
    then show ?thesis using IH q h p unfolding words_by_def by simp
  next
    case False
    show ?thesis
    proof (cases "P c")
      case True
      with False IH q h p show ?thesis unfolding words_by_def by simp
    next
      case F2: False
      with False IH q h p show ?thesis unfolding words_by_def by simp
    qed
  qed
qed

lemma words_by_concat:
  "words_by (\<lambda>c. P c \<or> S c) s = concat (map (words_by P) (splitP S s))"
proof -
  let ?Q = "\<lambda>c. P c \<or> S c"
  have a: "splitP ?Q s = hd (splitP ?Q s) # tl (splitP ?Q s)" using splitP_ne[of ?Q s] by simp
  have b: "splitP S s = hd (splitP S s) # tl (splitP S s)" using splitP_ne[of S s] by simp
  have c: "splitP P (hd (splitP S s)) = hd (splitP P (hd (splitP S s))) # tl (splitP P (hd (splitP S s)))"
    using splitP_ne[of P "hd (splitP S s)"] by simp
  have "words_by ?Q s = filter (\<lambda>w. w \<noteq> []) (hd (splitP ?Q s) # tl (splitP ?Q s))"
    using a by (simp add: words_by_def)
  also have "\<dots> = filter (\<lambda>w. w \<noteq> []) (hd (splitP P (hd (splitP S s))) # tl (splitP P (hd (splitP S s)))) 
        @ concat (map (words_by P) (tl (splitP S s)))"
    using splitP_two_level[of P S s] by simp
  also have "\<dots> = words_by P (hd (splitP S s)) @ concat (map (words_by P) (tl (splitP S s)))"
    using c by (simp add: words_by_def)
  also have "\<dots> = concat (map (words_by P) (hd (splitP S s) # tl (splitP S s)))" by simp
  also have "\<dots> = concat (map (words_by P) (splitP S s))" using b by simp
  finally show ?thesis .
qed

lemma rstrip_decomp: "s = rstrip_chars P s @ rev (takeWhile P (rev s))"
  by (metis rev_append rev_rev_ident rstrip_chars_def takeWhile_dropWhile_id)

lemma strip_decomp: "\<exists>a b. s = a @ strip s @ b \<and> (\<forall>c\<in>set a. is_space c) \<and> (\<forall>c\<in>set b. is_space c)"
proof -
  let ?r = "rstrip_chars is_space s"
  have 1: "s = ?r @ rev (takeWhile is_space (rev s))" by (rule rstrip_decomp)
  have 2: "?r = takeWhile is_space ?r @ strip s" by (simp add: strip_def)
  have "s = takeWhile is_space ?r @ strip s @ rev (takeWhile is_space (rev s))"
    using 1 2 by (metis append.assoc)
  moreover have "\<forall>c\<in>set (takeWhile is_space ?r). is_space c" by (meson set_takeWhileD)
  moreover have "\<forall>c\<in>set (rev (takeWhile is_space (rev s))). is_space c" 
    by (metis set_rev set_takeWhileD)
  ultimately show ?thesis by blast
qed

lemma words_by_strip: "words_by is_space (strip p) = words_by is_space p"
proof -
  obtain a b where "p = a @ strip p @ b" "\<forall>c\<in>set a. is_space c" "\<forall>c\<in>set b. is_space c"
    using strip_decomp by blast
  then show ?thesis by (metis words_by_left words_by_right)
qed

lemma words_by_plain: "(\<forall>c\<in>set t. \<not> P c) \<Longrightarrow> words_by P t = (if t = [] then [] else [t])"
  by (simp add: words_by_def splitP_none)


lemma rstrip_tail_all: "\<forall>x\<in>set (rev (takeWhile P (rev s))). P x"
  by (auto dest: set_takeWhileD)

lemma rstrip_chars_id: "(\<forall>c\<in>set s. \<not> P c) \<Longrightarrow> rstrip_chars P s = s"
  by (cases "rev s") (auto simp: rstrip_chars_def)

lemma set_rstrip_chars: "set (rstrip_chars P s) \<subseteq> set s"
  by (metis rstrip_chars_def set_dropWhileD set_rev subsetI)

lemma set_strip: "set (strip s) \<subseteq> set s"
  unfolding strip_def using set_rstrip_chars[of is_space s] by (meson set_dropWhileD subset_eq)

lemma comma_free_commas_to_spaces: "CHR '','' \<notin> set (commas_to_spaces s)"
  by (auto simp: commas_to_spaces_def)

lemma concat_singletons:
  "concat (map (\<lambda>p. if f p = [] then [] else [f p]) xs) = map f (filter (\<lambda>p. f p \<noteq> []) xs)"
  by (induction xs) auto

lemma tokens_replaced:
  "parse_csv_line_fast (rstrip_chars is_space (commas_to_spaces line)) = words_by comma_or_space line"
proof -
  let ?c = "commas_to_spaces line"
  let ?L = "rstrip_chars is_space ?c"
  have nc: "CHR '','' \<notin> set ?L"
    using set_rstrip_chars[of is_space ?c] comma_free_commas_to_spaces[of line] by blast
  then have r: "rstrip_chars (\<lambda>c. c = CHR '','') ?L = ?L"
    by (intro rstrip_chars_id) auto
  have nc2: "CHR '','' \<notin> set (strip ?L)" using nc set_strip[of ?L] by blast
  have "parse_csv_line_fast ?L = words_by is_space (strip ?L)"
    using nc2 r by (simp add: parse_csv_line_fast_def split_ws_def words_by_def)
  also have "\<dots> = words_by is_space ?L" by (rule words_by_strip)
  also have "\<dots> = words_by is_space ?c"
  proof -
    have "?c = ?L @ rev (takeWhile is_space (rev ?c))" by (rule rstrip_decomp)
    moreover have "\<forall>x\<in>set (rev (takeWhile is_space (rev ?c))). is_space x"
      by (rule rstrip_tail_all)
    ultimately show ?thesis using words_by_right[of "rev (takeWhile is_space (rev ?c))" is_space ?L] by simp
  qed
  also have "\<dots> = words_by comma_or_space line" by (simp add: words_by_def splitP_repl)
  finally show ?thesis .
qed

lemma tokens_original_stripped:
  "words_by comma_or_space line = words_by comma_or_space (strip (rstrip_chars (\<lambda>c. c = CHR '','') line))"
proof -
  let ?r = "rstrip_chars (\<lambda>c. c = CHR '','') line"
  have 1: "line = ?r @ rev (takeWhile (\<lambda>c. c = CHR '','') (rev line))" by (rule rstrip_decomp)
  have 2: "\<forall>x\<in>set (rev (takeWhile (\<lambda>c. c = CHR '','') (rev line))). comma_or_space x"
    using rstrip_tail_all[of "\<lambda>c. c = CHR '',''" line] by blast
  have a: "words_by comma_or_space line = words_by comma_or_space ?r"
    using 1 words_by_right[OF 2, of ?r] by simp
  obtain a b where ab: "?r = a @ strip ?r @ b" "\<forall>c\<in>set a. is_space c" "\<forall>c\<in>set b. is_space c"
    using strip_decomp by blast
  have "words_by comma_or_space ?r = words_by comma_or_space (a @ strip ?r @ b)" using ab(1) by simp
  also have "\<dots> = words_by comma_or_space (strip ?r @ b)" using ab(2) by (intro words_by_left) auto
  also have "\<dots> = words_by comma_or_space (strip ?r)" using ab(3) by (intro words_by_right) auto
  finally show ?thesis using a by simp
qed

text \<open>
  Claim C4, as amended. For every record line none of whose fields (as the tokenizer
  returns them) contains a whitespace character, replacing every comma by a single space
  and removing trailing whitespace gives a line with the same field list. Without the
  condition the two lists differ: a field cut out by commas keeps the whitespace inside
  it, while the comma-free line is cut at every run of whitespace.
\<close>

theorem tokenizer_equivalence_plain_fields:
  assumes "\<forall>f\<in>set (parse_csv_line line). \<forall>c\<in>set f. \<not> is_space c"
  shows "parse_csv_line (rstrip_chars is_space (commas_to_spaces line)) = parse_csv_line line"
proof -
  let ?st = "strip (rstrip_chars (\<lambda>c. c = CHR '','') line)"
  have lhs: "parse_csv_line (rstrip_chars is_space (commas_to_spaces line)) = words_by comma_or_space ?st"
    using tokens_replaced tokens_original_stripped by (simp add: parse_csv_line_def)
  show ?thesis
  proof (cases "CHR '','' \<in> set ?st")
    case False
    then have "splitP comma_or_space ?st = splitP is_space ?st" by (intro splitP_cong) auto
    then show ?thesis using False lhs
      by (simp add: parse_csv_line_def parse_csv_line_fast_def split_ws_def words_by_def)
  next
    case True
    let ?frags = "split_sep CHR '','' ?st"
    have fields: "parse_csv_line line = map strip (filter (\<lambda>p. strip p \<noteq> []) ?frags)"
      using True by (simp add: parse_csv_line_def parse_csv_line_fast_def)
    have each: "words_by is_space p = (if strip p = [] then [] else [strip p])" if "p \<in> set ?frags" for p
    proof -
      have "\<forall>c\<in>set (strip p). \<not> is_space c"
      proof (cases "strip p = []")
        case True then show ?thesis by simp
      next
        case False
        then have "strip p \<in> set (parse_csv_line line)" using that fields by auto
        then show ?thesis using assms by blast
      qed
      then have "words_by is_space (strip p) = (if strip p = [] then [] else [strip p])"
        by (rule words_by_plain)
      then show ?thesis by (simp add: words_by_strip)
    qed
    have "words_by comma_or_space ?st = concat (map (words_by is_space) ?frags)"
      unfolding split_sep_def by (rule words_by_concat)
    also have "\<dots> = concat (map (\<lambda>p. if strip p = [] then [] else [strip p]) ?frags)"
    proof -
      have "map (words_by is_space) ?frags = map (\<lambda>p. if strip p = [] then [] else [strip p]) ?frags"
        by (rule map_cong[OF refl]) (rule each)
      then show ?thesis by (rule arg_cong)
    qed
    also have "\<dots> = map strip (filter (\<lambda>p. strip p \<noteq> []) ?frags)"
      by (rule concat_singletons)
    finally show ?thesis using lhs fields by simp
  qed
qed

theorem tokenizer_equivalence_plain_fields_witness:
  "list_all (list_all (\<lambda>c. \<not> is_space c)) (parse_csv_line ''1, 2 ,3.5,, '') \<and>
   parse_csv_line (rstrip_chars is_space (commas_to_spaces ''1, 2 ,3.5,, '')) = [''1'', ''2'', ''3.5''] \<and>
   parse_csv_line ''1, 2 ,3.5,, '' = [''1'', ''2'', ''3.5'']"
proof -
  have v: "parse_csv_line ''1, 2 ,3.5,, '' = [''1'', ''2'', ''3.5'']" by code_simp
  have h: "\<forall>f\<in>set (parse_csv_line ''1, 2 ,3.5,, ''). \<forall>c\<in>set f. \<not> is_space c"
    unfolding v by code_simp
  have h': "list_all (list_all (\<lambda>c. \<not> is_space c)) (parse_csv_line ''1, 2 ,3.5,, '')"
    using h by (simp add: list_all_iff)
  show ?thesis using tokenizer_equivalence_plain_fields[OF h] h' v by simp
qed

text \<open>
  Claim C4 as stated fails on the line \<^verbatim>\<open>a b,c\<close>: its fields are \<^verbatim>\<open>a b\<close> and \<^verbatim>\<open>c\<close>,
  those of \<^verbatim>\<open>a b c\<close> are \<^verbatim>\<open>a\<close>, \<^verbatim>\<open>b\<close> and \<^verbatim>\<open>c\<close>.
\<close>

theorem tokenizer_equivalence_counterexample:
  "parse_csv_line (rstrip_chars is_space (commas_to_spaces ''a b,c'')) \<noteq> parse_csv_line ''a b,c''"
  by code_simp

section \<open>Block scanner: the doubled-delimiter guard\<close>

lemma strip_sandwich:
  assumes "t \<noteq> []" "\<not> is_space (hd t)" "\<not> is_space (last t)"
    "\<forall>c\<in>set a. is_space c" "\<forall>c\<in>set b. is_space c"
  shows "strip (a @ t @ b) = t"
proof -
  have "rev (a @ t @ b) = rev b @ rev t @ rev a" by simp
  moreover have "dropWhile is_space (rev b @ rev t @ rev a) = rev t @ rev a"
    using assms by (cases "rev t") (auto simp: dropWhile_append3 last_rev hd_rev dest: arg_cong[of _ _ rev])
  ultimately have "rstrip_chars is_space (a @ t @ b) = a @ t"
    by (simp add: rstrip_chars_def)
  moreover have "dropWhile is_space (a @ t) = t"
    using assms by (cases t) (auto simp: dropWhile_append)
  ultimately show ?thesis by (simp add: strip_def)
qed

lemma double_delimiter_iff:
  "double_delimiter nl \<longleftrightarrow>
     (\<exists>a b. nl = a @ ''-1'' @ b \<and> list_all is_space a \<and> list_all is_space b)"
proof
  assume "double_delimiter nl"
  then have s: "strip nl = ''-1''" by (simp add: double_delimiter_def)
  obtain a b where "nl = a @ strip nl @ b" "\<forall>c\<in>set a. is_space c" "\<forall>c\<in>set b. is_space c"
    using strip_decomp by blast
  then show "\<exists>a b. nl = a @ ''-1'' @ b \<and> list_all is_space a \<and> list_all is_space b"
    unfolding s by (auto simp: list_all_iff)
next
  assume "\<exists>a b. nl = a @ ''-1'' @ b \<and> list_all is_space a \<and> list_all is_space b"
  then obtain a b where ab: "nl = a @ ''-1'' @ b" "\<forall>c\<in>set a. is_space c" "\<forall>c\<in>set b. is_space c"
    by (auto simp: list_all_iff)
  have "strip (a @ ''-1'' @ b) = ''-1''"
    by (rule strip_sandwich[OF _ _ _ ab(2,3)]) (simp_all add: is_space_def)
  then show "double_delimiter nl" using ab(1) by (simp add: double_delimiter_def)
qed

text \<open>
  Claim C7, as amended. At a boundary line followed by another line, the guard fires
  exactly when that next line, stripped of surrounding whitespace, is \<^verbatim>\<open>-1\<close>: the
  line is \<^verbatim>\<open>-1\<close> with any whitespace before and after it, a second full boundary line
  included. The boundary is then skipped and scanning resumes at the next line, which is
  examined as a boundary in its turn. Otherwise the next line is the block-ID candidate:
  a block is opened when it converts, and on \<^verbatim>\<open>ValueError\<close> scanning resumes at it.
\<close>

theorem stray_delimiter_guard:
  assumes "rstrip_nl l = BLOCK_DELIMITER"
  shows "(double_delimiter nl \<longleftrightarrow>
            (\<exists>a b. nl = a @ ''-1'' @ b \<and> list_all is_space a \<and> list_all is_space b)) \<and>
         parse_loop pint (l # nl # rest) blocks =
           (if double_delimiter nl then parse_loop pint (nl # rest) blocks
            else (case c_int pint (strip nl) of
                    Inr bid \<Rightarrow>
                      parse_loop pint (snd (read_block rest []))
                        (store_block bid (fst (read_block rest [])) blocks)
                  | Inl ValueError \<Rightarrow> parse_loop pint (nl # rest) blocks
                  | Inl OverflowError \<Rightarrow> Inl OverflowError))"
  using assms double_delimiter_iff[of nl] by (simp del: parse_loop.simps add: parse_loop.simps(2)[of pint l])

theorem stray_delimiter_guard_witness:
  "rstrip_nl (''   -1'' @ [CHR 0x0A]) = BLOCK_DELIMITER \<and>
   double_delimiter (''   -1'' @ [CHR 0x0A]) \<and>
   parse_loop dec_int (file_of [''   -1'', ''   -1'', ''100'', ''t'', ''   -1'']) Map.empty =
   parse_loop dec_int (file_of [''   -1'', ''100'', ''t'', ''   -1'']) Map.empty"
proof -
  have h: "rstrip_nl (''   -1'' @ [CHR 0x0A]) = BLOCK_DELIMITER" by code_simp
  have d: "double_delimiter (''   -1'' @ [CHR 0x0A])" by code_simp
  show ?thesis
    using stray_delimiter_guard[OF h, of "''   -1'' @ [CHR 0x0A]" dec_int "file_of [''100'', ''t'', ''   -1'']" Map.empty] h d
    by (simp add: file_of_def)
qed

text \<open>
  Claim C7 as stated fails on a file that starts with two boundary lines: the second one
  has leading spaces and still triggers the guard. Had it been taken as the block-ID
  candidate, it would convert to \<open>-1\<close> and open a block with that ID; the scan yields
  block 100 and no block \<open>-1\<close>.
\<close>

theorem stray_delimiter_guard_counterexample:
  "double_delimiter (''   -1'' @ [CHR 0x0A]) \<and>
   rstrip_nl (''   -1'' @ [CHR 0x0A]) \<noteq> ''-1'' \<and>
   c_int dec_int (strip (''   -1'' @ [CHR 0x0A])) = Inr (- 1) \<and>
   map_sum id (\<lambda>blocks. (blocks 100, blocks (- 1)))
     (parse dec_int (file_of [''   -1'', ''   -1'', ''100'', ''t'', ''   -1''])) =
   Inr (Some [\<lparr>block_id = 100, lines = [''t'']\<rparr>], None)"
  by code_simp

section \<open>Title slots and the \<^verbatim>\<open><NULL>\<close> sentinel\<close>

lemma title_slot_normalises:
  "1 < length r \<Longrightarrow>
   title_slot r =
     (if rstrip_chars (\<lambda>c. c = CHR '','') (strip (r ! 1)) = ''<NULL>'' then []
      else rstrip_chars (\<lambda>c. c = CHR '','') (strip (r ! 1)))"
  by (simp add: title_slot_def Let_def)

lemma record_titles_from_title_slot:
  "property_record pint r = Inr (pid, p) \<Longrightarrow> prop_title p = title_slot r"
  "output_set_record pint pfloat r = Inr (sid, s) \<Longrightarrow> set_title s = title_slot r"
  "vector_header pint r = Inr (set_id, vec_id, t, ent_type) \<Longrightarrow> t = title_slot r"
  by (auto simp: property_record_def output_set_record_def vector_header_def bind_err_def Let_def
           split: sum.splits if_splits)

text \<open>
  Claim C8 at its failing input: a header block written as the format's template has it,
  with a comma after every record. The properties, output sets and output vectors remove
  the comma before comparing with the sentinel (\<open>title_slot\<close>); \<^verbatim>\<open>get_header\<close> only strips
  whitespace, so the title \<^verbatim>\<open><NULL>,\<close> is returned as it stands, while the same line in
  the title slot of a property becomes the empty string.
\<close>

theorem header_title_null_with_comma:
  "map_sum id get_header
     (parse dec_int (file_of [''   -1'', ''   100'', ''<NULL>,'', ''4.41,'', ''   -1''])) =
     Inr (Some \<lparr>header_title = ''<NULL>,'', header_version = ''4.41,''\<rparr>) \<and>
   title_slot [''7,24,1,25,1,0,'', ''<NULL>,''] = []"
  by code_simp

section \<open>Properties: the dictionary and the trace of assignments\<close>

lemma map_of_rev_last:
  "map_of (rev recs) k =
     (if filter (\<lambda>r. fst r = k) recs = [] then None
      else Some (snd (last (filter (\<lambda>r. fst r = k) recs))))"
  by (induction recs rule: rev_induct) auto

lemma properties_loop_assignments:
  "properties_loop pint r m =
     map_sum id (\<lambda>recs. m ++ map_of (rev recs)) (property_assignments_loop pint r)"
proof (induction "length r" arbitrary: r m rule: less_induct)
  case less
  show ?case
  proof (cases r)
    case Nil
    then show ?thesis by simp
  next
    case (Cons line rest)
    have IH: "properties_loop pint r' m' =
        map_sum id (\<lambda>recs. m' ++ map_of (rev recs)) (property_assignments_loop pint r')"
      if "length r' \<le> length rest" for r' m'
      using less[of r' m'] that Cons by simp
    show ?thesis
    proof (cases "3 \<le> length (parse_csv_line_fast line)")
      case False
      then show ?thesis using Cons IH[of rest m] by simp
    next
      case True
      show ?thesis
      proof (cases "property_record pint (line # rest)")
        case (Inl e)
        then show ?thesis using Cons True IH[of rest m] by (cases e) simp_all
      next
        case (Inr t)
        obtain k p where t: "t = (k, p)" by (cases t) auto
        show ?thesis
          using Cons True Inr t IH[of "drop 6 rest" "m(k \<mapsto> p)"]
          by (cases "property_assignments_loop pint (drop 6 rest)") simp_all
      qed
    qed
  qed
qed

lemma properties_blocks_assignments:
  "properties_blocks pint bs m =
     map_sum id (\<lambda>recs. m ++ map_of (rev recs)) (property_assignments pint bs)"
proof (induction bs arbitrary: m)
  case Nil
  show ?case by simp
next
  case (Cons b bs)
  show ?case
  proof (cases "property_assignments_loop pint (lines b)")
    case (Inl e)
    then show ?thesis by (simp add: properties_loop_assignments)
  next
    case (Inr recs)
    then show ?thesis
      by (cases "property_assignments pint bs") (simp_all add: properties_loop_assignments Cons)
  qed
qed

section \<open>Nodes: the dictionary and the arrays\<close>

lemma nodes_arrays_lines_length:
  "nodes_arrays_lines pint pfloat ls (ids, cs) = Inr (ids', cs') \<Longrightarrow>
   length ids = length cs \<Longrightarrow> length ids' = length cs'"
proof (induction ls arbitrary: ids cs)
  case Nil
  then show ?case by simp
next
  case (Cons line rest)
  then show ?case
    by (auto simp: Let_def split: if_splits sum.splits error.splits prod.splits)
qed

lemma nodes_arrays_blocks_length:
  "nodes_arrays_blocks pint pfloat bs (ids, cs) = Inr (ids', cs') \<Longrightarrow>
   length ids = length cs \<Longrightarrow> length ids' = length cs'"
proof (induction bs arbitrary: ids cs)
  case Nil
  then show ?case by simp
next
  case (Cons b bs)
  then show ?case
    by (auto simp: bind_err_def split: sum.splits dest: nodes_arrays_lines_length)
qed

lemma nodes_lines_arrays:
  "length ids = length cs \<Longrightarrow>
   nodes_lines pint pfloat ls (m0 ++ map_of (rev (zip ids cs))) =
     map_sum id (\<lambda>(ids', cs'). m0 ++ map_of (rev (zip ids' cs')))
       (nodes_arrays_lines pint pfloat ls (ids, cs))"
proof (induction ls arbitrary: ids cs)
  case Nil
  then show ?case by simp
next
  case (Cons line rest)
  show ?case
  proof (cases "14 \<le> length (parse_csv_line_fast line)")
    case False
    then show ?thesis using Cons.IH[OF Cons.prems] by simp
  next
    case True
    show ?thesis
    proof (cases "node_record pint pfloat (parse_csv_line_fast line)")
      case (Inl e)
      then show ?thesis using True Cons.IH[OF Cons.prems] by (cases e) simp_all
    next
      case (Inr t)
      obtain k xyz where t: "t = (k, xyz)" by (cases t) auto
      have upd: "(m0 ++ map_of (rev (zip ids cs)))(k \<mapsto> xyz) =
                 m0 ++ map_of (rev (zip (ids @ [k]) (cs @ [xyz])))"
        using Cons.prems by simp
      have L: "nodes_lines pint pfloat (line # rest) (m0 ++ map_of (rev (zip ids cs))) =
               nodes_lines pint pfloat rest ((m0 ++ map_of (rev (zip ids cs)))(k \<mapsto> xyz))"
        using True Inr t by simp
      have R: "nodes_arrays_lines pint pfloat (line # rest) (ids, cs) =
               nodes_arrays_lines pint pfloat rest (ids @ [k], cs @ [xyz])"
        using True Inr t by simp
      show ?thesis unfolding L R upd by (rule Cons.IH) (simp add: Cons.prems)
    qed
  qed
qed

lemma nodes_blocks_arrays:
  "length ids = length cs \<Longrightarrow>
   nodes_blocks pint pfloat bs (m0 ++ map_of (rev (zip ids cs))) =
     map_sum id (\<lambda>(ids', cs'). m0 ++ map_of (rev (zip ids' cs')))
       (nodes_arrays_blocks pint pfloat bs (ids, cs))"
proof (induction bs arbitrary: ids cs)
  case Nil
  then show ?case by simp
next
  case (Cons b bs)
  show ?case
  proof (cases "nodes_arrays_lines pint pfloat (lines b) (ids, cs)")
    case (Inl e)
    then show ?thesis
      using nodes_lines_arrays[OF Cons.prems, of pint pfloat "lines b" m0] by simp
  next
    case (Inr t)
    obtain ids1 cs1 where t: "t = (ids1, cs1)" by (cases t) auto
    have len: "length ids1 = length cs1"
      using nodes_arrays_lines_length[OF Inr[unfolded t] Cons.prems] .
    show ?thesis
      using Inr t nodes_lines_arrays[OF Cons.prems, of pint pfloat "lines b" m0] Cons.IH[OF len]
      by simp
  qed
qed

lemma map_of_rev_zip_distinct:
  assumes "length ids = length cs" "distinct ids"
  shows "card (dom (map_of (rev (zip ids cs)))) = length ids"
    and "k < length ids \<Longrightarrow> map_of (rev (zip ids cs)) (ids ! k) = Some (cs ! k)"
proof -
  have d: "distinct (map fst (rev (zip ids cs)))" using assms by (simp add: rev_map[symmetric])
  have "map fst (zip ids cs) = ids" using assms(1) by simp
  then have "fst ` set (zip ids cs) = set ids" by (metis set_map)
  then have "dom (map_of (rev (zip ids cs))) = set ids"
    by (simp add: dom_map_of_conv_image_fst)
  then show "card (dom (map_of (rev (zip ids cs)))) = length ids"
    using assms(2) by (simp add: distinct_card)
  assume k: "k < length ids"
  then have "(ids ! k, cs ! k) \<in> set (rev (zip ids cs))"
    using assms(1) by (auto simp: set_zip)
  then show "map_of (rev (zip ids cs)) (ids ! k) = Some (cs ! k)"
    using d by simp
qed

lemma get_nodes_arrays_agree:
  assumes "get_nodes_arrays pint pfloat blocks = Inr (node_ids, coords)"
  shows "length node_ids = length coords \<and>
         get_nodes pint pfloat blocks = Inr (map_of (rev (zip node_ids coords))) \<and>
         card (dom (map_of (rev (zip node_ids coords)))) \<le> length node_ids \<and>
         (distinct node_ids \<longrightarrow>
            card (dom (map_of (rev (zip node_ids coords)))) = length node_ids \<and>
            (\<forall>k<length node_ids. map_of (rev (zip node_ids coords)) (node_ids ! k) = Some (coords ! k)))"
proof -
  from assms have a: "nodes_arrays_blocks pint pfloat (get_blocks blocks 403) ([], []) = Inr (node_ids, coords)"
    by (auto simp: get_nodes_arrays_def bind_err_def split: sum.splits if_splits)
  have 1: "length node_ids = length coords"
    using nodes_arrays_blocks_length[OF a] by simp
  have 2: "get_nodes pint pfloat blocks = Inr (map_of (rev (zip node_ids coords)))"
    using nodes_blocks_arrays[of "[]" "[]" pint pfloat "get_blocks blocks 403" Map.empty] a
    by (simp add: get_nodes_def)
  have "map fst (zip node_ids coords) = node_ids" using 1 by simp
  then have "fst ` set (zip node_ids coords) = set node_ids" by (metis set_map)
  then have "dom (map_of (rev (zip node_ids coords))) = set node_ids"
    by (simp add: dom_map_of_conv_image_fst)
  then have 3: "card (dom (map_of (rev (zip node_ids coords)))) \<le> length node_ids"
    by (simp add: card_length)
  show ?thesis using 1 2 3 map_of_rev_zip_distinct[OF 1] by blast
qed

lemma no_node_blocks:
  assumes "get_blocks blocks 403 = []"
  shows "get_nodes pint pfloat blocks = Inr Map.empty"
    and "get_nodes_arrays pint pfloat blocks = Inl ValueError"
  using assms by (simp_all add: get_nodes_def get_nodes_arrays_def)

text \<open>
  Claim C10 at its failing input: a file without node records, here one that holds only
  the header block. \<^verbatim>\<open>get_nodes\<close> returns the empty dictionary; \<^verbatim>\<open>get_nodes_arrays\<close>
  returns no arrays but raises \<^verbatim>\<open>ValueError\<close>, because the empty coordinate array has
  one dimension and the variable it is assigned to is declared with two. Whenever
  \<^verbatim>\<open>get_nodes_arrays\<close> does return, its arrays agree with the dictionary as the claim
  says (\<open>get_nodes_arrays_agree\<close>).
\<close>

theorem nodes_arrays_raise_without_nodes:
  "\<exists>blocks.
     parse dec_int (file_of [''   -1'', ''   100'', ''<NULL>'', ''4.41,'', ''   -1'']) = Inr blocks \<and>
     get_nodes dec_int dec_float blocks = Inr Map.empty \<and>
     get_nodes_arrays dec_int dec_float blocks = Inl ValueError"
proof -
  let ?F = "file_of [''   -1'', ''   100'', ''<NULL>'', ''4.41,'', ''   -1'']"
  have e: "map_sum id (\<lambda>b. get_blocks b 403) (parse dec_int ?F) = Inr []" by code_simp
  then obtain blocks where b: "parse dec_int ?F = Inr blocks" "get_blocks blocks 403 = []"
    by (cases "parse dec_int ?F") auto
  show ?thesis using b no_node_blocks[OF b(2)] by blast
qed

section \<open>Exceptions that leave the parser\<close>

text \<open>
  Claim C6 at its failing inputs. A node record whose ID field is a decimal number
  outside the range of a C \<^verbatim>\<open>int\<close> makes \<^verbatim>\<open>get_nodes\<close> raise \<^verbatim>\<open>OverflowError\<close>: the
  handler names \<^verbatim>\<open>ValueError\<close> and \<^verbatim>\<open>IndexError\<close> only. The same conversion in
  \<^verbatim>\<open>_parse\<close> lets a block-ID line with such a number end the scan of the file with
  \<^verbatim>\<open>OverflowError\<close>.
\<close>

theorem overflow_error_escapes:
  "bind_err (parse dec_int (file_of
       [''   -1'', ''   403'', ''99999999999,0,0,1,46,0,0,0,0,0,0,0.,0.,0.,'', ''   -1'']))
     (\<lambda>blocks. map_sum id (\<lambda>nodes. ()) (get_nodes dec_int dec_float blocks)) = Inl OverflowError \<and>
   map_sum id (\<lambda>blocks. ()) (parse dec_int (file_of [''   -1'', ''99999999999'', ''   -1''])) =
     Inl OverflowError"
  by code_simp

section \<open>Output vectors: run records\<close>

lemma wrap32_id: "- 2147483648 \<le> x \<Longrightarrow> x \<le> 2147483647 \<Longrightarrow> wrap32 x = x"
  by (simp add: wrap32_def)

lemma c_int_range: "c_int pint str = Inr v \<Longrightarrow> - 2147483648 \<le> v \<and> v \<le> 2147483647"
  by (auto simp: c_int_def split: option.splits if_splits)

lemma entity_count_exact:
  "- 2147483648 \<le> e - s \<Longrightarrow> e - s + 1 \<le> 2147483647 \<Longrightarrow> entity_count_of s e = e - s + 1"
  by (simp add: entity_count_of_def wrap32_id)

lemma run_record_range:
  assumes "run_record pint pfloat parts = Inr (s, e, v0)"
  shows "- 2147483648 \<le> s \<and> s \<le> 2147483647 \<and> - 2147483648 \<le> e \<and> e \<le> 2147483647"
proof -
  from assms have "c_int pint (parts ! 0) = Inr s" "c_int pint (parts ! 1) = Inr e"
    by (auto simp: run_record_def bind_err_def split: sum.splits)
  then show ?thesis using c_int_range by blast
qed

lemma fold_assign_consecutive:
  "fold (\<lambda>offset res. res(s + int offset \<mapsto> vs ! offset)) [0 ..< n] results =
     (\<lambda>i. if s \<le> i \<and> i < s + int n then Some (vs ! nat (i - s)) else results i)"
proof (induction n)
  case 0
  show ?case by (auto simp: fun_eq_iff)
next
  case (Suc n)
  show ?case
    unfolding upt_Suc_append[OF le0] fold_append comp_def Suc
    by (auto simp: fun_eq_iff nat_diff_distrib)
qed

lemma assign_run_entries:
  assumes "- 2147483648 \<le> s" "s + n - 1 \<le> 2147483647"
  shows "assign_run s n vs results =
     (\<lambda>i. if s \<le> i \<and> i < s + min (int (length vs)) n then Some (vs ! nat (i - s)) else results i)"
proof -
  let ?m = "nat (min (int (length vs)) n)"
  have "fold (\<lambda>offset res. res(wrap32 (s + int offset) \<mapsto> vs ! offset)) [0 ..< ?m] results =
        fold (\<lambda>offset res. res(s + int offset \<mapsto> vs ! offset)) [0 ..< ?m] results"
  proof (rule fold_cong[OF refl refl])
    fix k assume "k \<in> set [0 ..< ?m]"
    then have "int k < n" by auto
    then have "wrap32 (s + int k) = s + int k" using assms by (intro wrap32_id) auto
    then show "(\<lambda>res. res(wrap32 (s + int k) \<mapsto> vs ! k)) = (\<lambda>res. res(s + int k \<mapsto> vs ! k))"
      by simp
  qed
  then have "assign_run s n vs results =
     (\<lambda>i. if s \<le> i \<and> i < s + int ?m then Some (vs ! nat (i - s)) else results i)"
    by (simp add: assign_run_def fold_assign_consecutive)
  also have "\<dots> = (\<lambda>i. if s \<le> i \<and> i < s + min (int (length vs)) n then Some (vs ! nat (i - s)) else results i)"
    by (auto simp: fun_eq_iff)
  finally show ?thesis .
qed


lemma floats_append:
  "floats pfloat (xs @ ys) =
     bind_err (floats pfloat xs) (\<lambda>a. bind_err (floats pfloat ys) (\<lambda>b. Inr (a @ b)))"
proof (induction xs)
  case Nil
  show ?case by (cases "floats pfloat ys") simp_all
next
  case (Cons x xs)
  show ?case
    by (cases "c_double pfloat x"; cases "floats pfloat xs"; cases "floats pfloat ys")
       (simp_all add: Cons)
qed

lemma read_continuation_collects:
  "read_continuation pfloat n v0 rest = Inr (vs, rest') \<Longrightarrow>
   \<exists>used more.
     rest = used @ rest' \<and> vs = v0 @ more \<and>
     floats pfloat (concat (map parse_csv_line_fast used)) = Inr more \<and>
     (\<forall>u\<in>set used. \<not> is_terminator (parse_csv_line_fast u)) \<and>
     (used \<noteq> [] \<longrightarrow>
        (\<exists>before. floats pfloat (concat (map parse_csv_line_fast (butlast used))) = Inr before \<and>
                  int (length v0 + length before) < n)) \<and>
     (rest' = [] \<or> n \<le> int (length vs) \<or> is_terminator (parse_csv_line_fast (hd rest')))"
proof (induction rest arbitrary: v0)
  case Nil
  then show ?case by auto
next
  case (Cons l r)
  show ?case
  proof (cases "int (length v0) < n")
    case False
    with Cons.prems have "vs = v0" "rest' = l # r" by auto
    with False show ?thesis by auto
  next
    case lt: True
    show ?thesis
    proof (cases "is_terminator (parse_csv_line_fast l)")
      case True
      with lt Cons.prems have "vs = v0" "rest' = l # r" by auto
      with True show ?thesis by auto
    next
      case nt: False
      show ?thesis
      proof (cases "floats pfloat (parse_csv_line_fast l)")
        case (Inl e)
        with lt nt Cons.prems show ?thesis by simp
      next
        case (Inr mv)
        with lt nt Cons.prems have "read_continuation pfloat n (v0 @ mv) r = Inr (vs, rest')"
          by simp
        from Cons.IH[OF this] obtain used more where u:
          "r = used @ rest'" "vs = (v0 @ mv) @ more"
          "floats pfloat (concat (map parse_csv_line_fast used)) = Inr more"
          "\<forall>u\<in>set used. \<not> is_terminator (parse_csv_line_fast u)"
          "used \<noteq> [] \<longrightarrow>
             (\<exists>before. floats pfloat (concat (map parse_csv_line_fast (butlast used))) = Inr before \<and>
                  int (length (v0 @ mv) + length before) < n)"
          "rest' = [] \<or> n \<le> int (length vs) \<or> is_terminator (parse_csv_line_fast (hd rest'))"
          by blast
        have a: "l # r = (l # used) @ rest'" using u(1) by simp
        have b: "vs = v0 @ (mv @ more)" using u(2) by simp
        have c: "floats pfloat (concat (map parse_csv_line_fast (l # used))) = Inr (mv @ more)"
          using Inr u(3) by (simp add: floats_append)
        have d: "\<forall>u\<in>set (l # used). \<not> is_terminator (parse_csv_line_fast u)"
          using nt u(4) by simp
        have e: "\<exists>before. floats pfloat (concat (map parse_csv_line_fast (butlast (l # used)))) = Inr before \<and>
                  int (length v0 + length before) < n"
        proof (cases "used = []")
          case True
          then show ?thesis using lt by simp
        next
          case False
          with u(5) obtain before where
            bf: "floats pfloat (concat (map parse_csv_line_fast (butlast used))) = Inr before"
                "int (length (v0 @ mv) + length before) < n" by blast
          have "floats pfloat (concat (map parse_csv_line_fast (butlast (l # used)))) = Inr (mv @ before)"
            using False Inr bf(1) by (simp add: floats_append)
          moreover have "int (length v0 + length (mv @ before)) < n" using bf(2) by simp
          ultimately show ?thesis by blast
        qed
        show ?thesis using a b c d e u(6) by blast
      qed
    qed
  qed
qed

text \<open>
  Claim C1, as amended. A result line with more than two fields that is not the terminator
  is a run record: its first two fields convert to \<open>s\<close> and \<open>e\<close>, the others to the initial
  values \<open>v0\<close>. The IDs and the count are C \<^verbatim>\<open>int\<close>s; when the count \<open>e - s + 1\<close> fits the
  32-bit range, as it does for all IDs the format allows (1 to 99999999), the continuation
  loop reads the lines \<open>used\<close>, none of them a terminator and each read while fewer than
  \<open>e - s + 1\<close> values were gathered, and stops at the end of the block, at a terminator or
  when enough values are gathered; \<open>vs\<close> is \<open>v0\<close> followed by the values of those lines.
  The loop continues after them with the dictionary changed at exactly the keys \<open>s + k\<close>
  for \<open>0 \<le> k < min (length vs) (e - s + 1)\<close>, which now hold \<open>vs ! k\<close>.
\<close>

theorem run_record_entries:
  assumes "2 < length (parse_csv_line_fast l)" and "\<not> is_terminator (parse_csv_line_fast l)"
    and "run_record pint pfloat (parse_csv_line_fast l) = Inr (s, e, v0)"
    and "- 2147483648 \<le> e - s" and "e - s + 1 \<le> 2147483647"
    and "read_continuation pfloat (e - s + 1) v0 rest = Inr (vs, rest')"
  shows "results_loop pint pfloat (l # rest) results =
           results_loop pint pfloat rest'
             (\<lambda>i. if s \<le> i \<and> i < s + min (int (length vs)) (e - s + 1)
                  then Some (vs ! nat (i - s)) else results i) \<and>
         (\<exists>used more.
            rest = used @ rest' \<and> vs = v0 @ more \<and>
            floats pfloat (concat (map parse_csv_line_fast used)) = Inr more \<and>
            (\<forall>u\<in>set used. \<not> is_terminator (parse_csv_line_fast u)) \<and>
            (used \<noteq> [] \<longrightarrow>
               (\<exists>before. floats pfloat (concat (map parse_csv_line_fast (butlast used))) = Inr before \<and>
                         int (length v0 + length before) < e - s + 1)) \<and>
            (rest' = [] \<or> e - s + 1 \<le> int (length vs) \<or>
             is_terminator (parse_csv_line_fast (hd rest'))))"
proof -
  have n: "entity_count_of s e = e - s + 1" using assms(4,5) by (rule entity_count_exact)
  have rng: "- 2147483648 \<le> s" "e \<le> 2147483647" using run_record_range[OF assms(3)] by simp_all
  have "assign_run s (e - s + 1) vs results =
     (\<lambda>i. if s \<le> i \<and> i < s + min (int (length vs)) (e - s + 1)
          then Some (vs ! nat (i - s)) else results i)"
    using rng by (intro assign_run_entries) simp_all
  moreover have "length (parse_csv_line_fast l) \<noteq> 2" using assms(1) by simp
  ultimately have "results_loop pint pfloat (l # rest) results =
           results_loop pint pfloat rest'
             (\<lambda>i. if s \<le> i \<and> i < s + min (int (length vs)) (e - s + 1)
                  then Some (vs ! nat (i - s)) else results i)"
    using assms(1,2,3,6) n by (simp add: Let_def)
  then show ?thesis using read_continuation_collects[OF assms(6)] by blast
qed


text \<open>
  The run record \<^verbatim>\<open>5,8,1.0,2.0,3.0,4.0,\<close> followed by the terminator gives the entries
  5 to 8 and nothing else, also as the only vector of a block.
\<close>

theorem run_record_entries_witness:
  "2 < length (parse_csv_line_fast ''5,8,1.0,2.0,3.0,4.0,'') \<and>
   \<not> is_terminator (parse_csv_line_fast ''5,8,1.0,2.0,3.0,4.0,'') \<and>
   run_record dec_int dec_float (parse_csv_line_fast ''5,8,1.0,2.0,3.0,4.0,'') = Inr (5, 8, [1, 2, 3, 4]) \<and>
   read_continuation dec_float (8 - 5 + 1) [1, 2, 3, 4] [''-1,0.,''] = Inr ([1, 2, 3, 4], [''-1,0.,'']) \<and>
   results_loop dec_int dec_float [''5,8,1.0,2.0,3.0,4.0,'', ''-1,0.,''] Map.empty =
     Inr ([5 \<mapsto> 1, 6 \<mapsto> 2, 7 \<mapsto> 3, 8 \<mapsto> 4], []) \<and>
   vectors_loop dec_int dec_float
     [''1,60011,1,'', ''Disp,'', ''0.,-1.,0.,'', ''0,0,0,0,0,0,0,0,0,0,'', ''0,0,0,0,0,0,0,0,0,0,'',
      ''0,0,3,7,'', ''0,1,1,'', ''5,8,1.0,2.0,3.0,4.0,'', ''-1,0.,''] [] =
     Inr [\<lparr>vec_set_id = 1, vec_vec_id = 60011, vec_title = ''Disp'', vec_ent_type = Some 7,
           vec_results = [5 \<mapsto> 1, 6 \<mapsto> 2, 7 \<mapsto> 3, 8 \<mapsto> 4]\<rparr>]"
proof -
  let ?l = "''5,8,1.0,2.0,3.0,4.0,''"
  let ?t = "''-1,0.,''"
  have h1: "2 < length (parse_csv_line_fast ?l)" by code_simp
  have h2: "\<not> is_terminator (parse_csv_line_fast ?l)" by code_simp
  have h3: "run_record dec_int dec_float (parse_csv_line_fast ?l) = Inr (5, 8, [1, 2, 3, 4])"
    by code_simp
  have h4: "(- 2147483648 :: int) \<le> 8 - 5" by simp
  have h5: "(8 :: int) - 5 + 1 \<le> 2147483647" by simp
  have h6: "read_continuation dec_float (8 - 5 + 1) [1, 2, 3, 4] [?t] = Inr ([1, 2, 3, 4], [?t])"
    by code_simp
  have t: "is_terminator (parse_csv_line_fast ?t)" by code_simp
  have m: "(\<lambda>i::int. if 5 \<le> i \<and> i < 5 + min (int (length [1, 2, 3, 4 :: rat])) (8 - 5 + 1)
                  then Some ([1, 2, 3, 4 :: rat] ! nat (i - 5)) else Map.empty i) =
           [5 \<mapsto> 1, 6 \<mapsto> 2, 7 \<mapsto> 3, 8 \<mapsto> 4]"
  proof (rule ext)
    fix i :: int
    have "i < 5 \<or> i = 5 \<or> i = 6 \<or> i = 7 \<or> i = 8 \<or> 8 < i" by arith
    then show "(if 5 \<le> i \<and> i < 5 + min (int (length [1, 2, 3, 4 :: rat])) (8 - 5 + 1)
                  then Some ([1, 2, 3, 4 :: rat] ! nat (i - 5)) else Map.empty i) =
           [5 \<mapsto> 1, 6 \<mapsto> 2, 7 \<mapsto> 3, 8 \<mapsto> 4] i"
      by (elim disjE) simp_all
  qed
  have r: "results_loop dec_int dec_float [?l, ?t] Map.empty =
      Inr ([5 \<mapsto> 1, 6 \<mapsto> 2, 7 \<mapsto> 3, 8 \<mapsto> 4], [])"
    using run_record_entries[OF h1 h2 h3 h4 h5 h6, where results = Map.empty] t
    unfolding m by simp
  have p: "2 \<le> length (parse_csv_line_fast ''1,60011,1,'')" by code_simp
  have v: "vector_header dec_int
     [''1,60011,1,'', ''Disp,'', ''0.,-1.,0.,'', ''0,0,0,0,0,0,0,0,0,0,'', ''0,0,0,0,0,0,0,0,0,0,'',
      ''0,0,3,7,'', ''0,1,1,'', ?l, ?t] = Inr (1, 60011, ''Disp'', Some 7)"
    by code_simp
  have "vectors_loop dec_int dec_float
     [''1,60011,1,'', ''Disp,'', ''0.,-1.,0.,'', ''0,0,0,0,0,0,0,0,0,0,'', ''0,0,0,0,0,0,0,0,0,0,'',
      ''0,0,3,7,'', ''0,1,1,'', ?l, ?t] [] =
     Inr [\<lparr>vec_set_id = 1, vec_vec_id = 60011, vec_title = ''Disp'', vec_ent_type = Some 7,
           vec_results = [5 \<mapsto> 1, 6 \<mapsto> 2, 7 \<mapsto> 3, 8 \<mapsto> 4]\<rparr>]"
    using p v r by simp
  then show ?thesis using h1 h2 h3 h6 r by blast
qed

text \<open>
  Claim C1 as stated fails when the count does not fit a C \<^verbatim>\<open>int\<close>. For the run record
  \<^verbatim>\<open>0,2147483647,1.5,\<close> the count \<open>e - s + 1\<close> is \<open>2147483648\<close>, which \<^verbatim>\<open>entity_count\<close> holds
  as \<open>- 2147483648\<close>: no value is assigned, although one value was collected and the
  entry \<open>0 \<mapsto> 1.5\<close> is due.
\<close>

theorem run_count_overflow_counterexample:
  "2 < length (parse_csv_line_fast ''0,2147483647,1.5,'') \<and>
   \<not> is_terminator (parse_csv_line_fast ''0,2147483647,1.5,'') \<and>
   run_record dec_int dec_float (parse_csv_line_fast ''0,2147483647,1.5,'') =
     Inr (0, 2147483647, [3 / 2]) \<and>
   entity_count_of 0 2147483647 = - 2147483648 \<and>
   map_sum id (\<lambda>(results, rest). (results 0, rest))
     (results_loop dec_int dec_float [''0,2147483647,1.5,'', ''-1,0.,''] Map.empty) =
     Inr (None, []) \<and>
   map_sum id (map (\<lambda>v. (vec_set_id v, vec_vec_id v, vec_results v 0)))
     (bind_err
        (parse dec_int (file_text
           [vectors_block (vector_header_lines @ [''0,2147483647,1.5,'', ''-1,0.,''])]))
        (get_output_vectors dec_int dec_float)) = Inr [(1, 60011, None)]"
  by code_simp

section \<open>The scanner on files made of blocks\<close>

lemma rstrip_chars_snoc: "P c \<Longrightarrow> rstrip_chars P (s @ [c]) = rstrip_chars P s"
  by (simp add: rstrip_chars_def)

lemma rstrip_nl_line: "CHR 0x0A \<notin> set l \<Longrightarrow> rstrip_nl (l @ [CHR 0x0A]) = l"
proof -
  assume "CHR 0x0A \<notin> set l"
  then have "rstrip_chars (\<lambda>c. c = CHR 0x0A) l = l" by (intro rstrip_chars_id) auto
  then show ?thesis by (simp add: rstrip_nl_def rstrip_chars_snoc)
qed

lemma strip_line: "strip (l @ [CHR 0x0A]) = strip l"
  by (simp add: strip_def rstrip_chars_snoc is_space_def)

lemma double_delimiter_line: "double_delimiter (l @ [CHR 0x0A]) = double_delimiter l"
  by (simp add: double_delimiter_def strip_line)

lemma read_block_content:
  assumes "list_all (\<lambda>l. CHR 0x0A \<notin> set l) body" "BLOCK_DELIMITER \<notin> set body"
  shows "read_block (file_of (body @ [BLOCK_DELIMITER]) @ rest) acc = (acc @ body, rest)"
  using assms
proof (induction body arbitrary: acc)
  case Nil
  have "CHR 0x0A \<notin> set BLOCK_DELIMITER" by (simp add: BLOCK_DELIMITER_def)
  then show ?case by (simp add: file_of_def rstrip_nl_line)
next
  case (Cons l body)
  then have "rstrip_nl (l @ [CHR 0x0A]) = l" "l \<noteq> BLOCK_DELIMITER"
    by (auto simp: rstrip_nl_line)
  then show ?case using Cons by (simp add: file_of_def)
qed

lemma parse_loop_block:
  assumes "wf_file_block pint b"
  shows "parse_loop pint (block_text b @ rest) m =
         parse_loop pint rest (store_block (fb_id b) (fb_lines b) m)"
proof -
  have d: "CHR 0x0A \<notin> set BLOCK_DELIMITER" by (simp add: BLOCK_DELIMITER_def)
  have 1: "rstrip_nl (BLOCK_DELIMITER @ [CHR 0x0A]) = BLOCK_DELIMITER"
    using d by (rule rstrip_nl_line)
  have 2: "\<not> double_delimiter (fb_id_line b @ [CHR 0x0A])"
    using assms by (simp add: wf_file_block_def double_delimiter_line)
  have 3: "c_int pint (strip (fb_id_line b @ [CHR 0x0A])) = Inr (fb_id b)"
    using assms by (simp add: wf_file_block_def strip_line)
  have 4: "read_block (file_of (fb_lines b @ [BLOCK_DELIMITER]) @ rest) [] = (fb_lines b, rest)"
    using assms read_block_content[of "fb_lines b" rest "[]"] by (simp add: wf_file_block_def)
  have "block_text b @ rest =
        (BLOCK_DELIMITER @ [CHR 0x0A]) # (fb_id_line b @ [CHR 0x0A]) #
          (file_of (fb_lines b @ [BLOCK_DELIMITER]) @ rest)"
    by (simp add: block_text_def file_of_def)
  then show ?thesis using 1 2 3 4 by simp
qed

lemma parse_loop_file:
  "list_all (wf_file_block pint) bs \<Longrightarrow>
   parse_loop pint (file_text bs) m =
     Inr (fold (\<lambda>b. store_block (fb_id b) (fb_lines b)) bs m)"
proof (induction bs arbitrary: m)
  case Nil
  show ?case by (simp add: file_text_def)
next
  case (Cons b bs)
  then have "parse_loop pint (block_text b @ file_text bs) m =
             parse_loop pint (file_text bs) (store_block (fb_id b) (fb_lines b) m)"
    by (intro parse_loop_block) simp
  then show ?case using Cons by (simp add: file_text_def)
qed

lemma fold_store_block:
  "fold (\<lambda>b. store_block (fb_id b) (fb_lines b)) bs m k =
     (case filter (\<lambda>b. fb_id b = k) bs of
        [] \<Rightarrow> m k
      | cs \<Rightarrow> Some (get_blocks m k @ map (\<lambda>b. \<lparr>block_id = k, lines = fb_lines b\<rparr>) cs))"
proof (induction bs arbitrary: m)
  case Nil
  show ?case by simp
next
  case (Cons b bs)
  show ?case
    unfolding fold_Cons comp_def Cons
    by (auto simp: store_block_def get_blocks_def Let_def split: list.splits option.splits)
qed

lemma parse_file:
  assumes "list_all (wf_file_block pint) bs"
  shows "parse pint (file_text bs) = Inr (scanned_blocks bs)"
proof -
  have "fold (\<lambda>b. store_block (fb_id b) (fb_lines b)) bs Map.empty = scanned_blocks bs"
    by (rule ext) (simp add: fold_store_block scanned_blocks_def get_blocks_def split: list.splits)
  then show ?thesis using parse_loop_file[OF assms, of Map.empty] by (simp add: parse_def)
qed

lemma get_blocks_scanned:
  "get_blocks (scanned_blocks bs) k =
     map (\<lambda>b. \<lparr>block_id = k, lines = fb_lines b\<rparr>) (filter (\<lambda>b. fb_id b = k) bs)"
  by (simp add: get_blocks_def scanned_blocks_def split: list.splits)

lemma scanned_blocks_same_order:
  assumes "\<forall>k. filter (\<lambda>b. fb_id b = k) bs' = filter (\<lambda>b. fb_id b = k) bs"
  shows "scanned_blocks bs' = scanned_blocks bs"
  using assms by (simp add: fun_eq_iff scanned_blocks_def)

lemma same_order_mset:
  assumes "\<forall>k. filter (\<lambda>b. fb_id b = k) bs' = filter (\<lambda>b. fb_id b = k) bs"
  shows "mset bs' = mset bs"
proof (rule multiset_eqI)
  fix x
  have "count (mset bs') x = count (mset (filter (\<lambda>b. fb_id b = fb_id x) bs')) x" by simp
  also have "\<dots> = count (mset (filter (\<lambda>b. fb_id b = fb_id x) bs)) x" using assms by simp
  also have "\<dots> = count (mset bs) x" by simp
  finally show "count (mset bs') x = count (mset bs) x" .
qed

section \<open>Malformed records\<close>

lemma nodes_lines_skip:
  assumes "14 \<le> length (parse_csv_line_fast l) \<longrightarrow>
           node_record pint pfloat (parse_csv_line_fast l) = Inl ValueError"
  shows "nodes_lines pint pfloat (xs @ l # ys) m = nodes_lines pint pfloat (xs @ ys) m"
proof (induction xs arbitrary: m)
  case Nil
  show ?case using assms by (auto simp: Let_def)
next
  case (Cons x xs)
  show ?case
  proof (cases "14 \<le> length (parse_csv_line_fast x)")
    case False
    then show ?thesis by (simp add: Cons)
  next
    case True
    show ?thesis
    proof (cases "node_record pint pfloat (parse_csv_line_fast x)")
      case (Inl e)
      then show ?thesis using True by (cases e) (simp_all add: Cons)
    next
      case (Inr t)
      obtain k xyz where "t = (k, xyz)" by (cases t) auto
      then show ?thesis using True Inr by (simp add: Cons fun_upd_def)
    qed
  qed
qed

lemma materials_loop_skip:
  assumes "1 \<le> length (parse_csv_line_fast l) \<longrightarrow>
           c_int pint (parse_csv_line_fast l ! 0) = Inl ValueError"
  shows "materials_loop pint (xs @ l # ys) m = materials_loop pint (xs @ ys) m"
proof (induction xs arbitrary: m)
  case Nil
  show ?case using assms by (auto simp: Let_def)
next
  case (Cons x xs)
  show ?case
  proof (cases "1 \<le> length (parse_csv_line_fast x)")
    case False
    then show ?thesis by (simp add: Cons)
  next
    case True
    show ?thesis
    proof (cases "c_int pint (parse_csv_line_fast x ! 0)")
      case (Inl e)
      then show ?thesis using True by (cases e) (simp_all add: Cons)
    next
      case (Inr k)
      then show ?thesis using True by (simp add: Cons fun_upd_def)
    qed
  qed
qed

lemma read_continuation_failure_line:
  "read_continuation pfloat n vals ls = Inl (e, pos) \<Longrightarrow>
   \<exists>pre. ls = pre @ pos \<and> pos \<noteq> [] \<and> floats pfloat (parse_csv_line_fast (hd pos)) = Inl e"
proof (induction ls arbitrary: vals)
  case Nil
  then show ?case by simp
next
  case (Cons l r)
  show ?case
  proof (cases "floats pfloat (parse_csv_line_fast l)")
    case (Inl e')
    with Cons.prems have "e' = e" "pos = l # r"
      by (auto simp: Let_def split: if_splits)
    with Inl show ?thesis by auto
  next
    case (Inr mv)
    with Cons.prems have "read_continuation pfloat n (vals @ mv) r = Inl (e, pos)"
      by (auto simp: Let_def split: if_splits)
    from Cons.IH[OF this] obtain pre where "r = pre @ pos" "pos \<noteq> []"
      "floats pfloat (parse_csv_line_fast (hd pos)) = Inl e" by blast
    then have "l # r = (l # pre) @ pos" by simp
    then show ?thesis using \<open>pos \<noteq> []\<close> \<open>floats pfloat (parse_csv_line_fast (hd pos)) = Inl e\<close>
      by blast
  qed
qed

lemma read_continuation_suffix:
  "read_continuation pfloat n vals ls = Inr (vs, rest') \<Longrightarrow> \<exists>used. ls = used @ rest'"
  using read_continuation_collects by blast

lemma results_loop_failure_line:
  "results_loop pint pfloat ls results = Inl (e, pos) \<Longrightarrow>
   \<exists>pre. ls = pre @ pos \<and> pos \<noteq> [] \<and> result_line_fails pint pfloat e (hd pos)"
proof (induction "length ls" arbitrary: ls results rule: less_induct)
  case less
  show ?case
  proof (cases ls)
    case Nil
    with less.prems show ?thesis by simp
  next
    case (Cons l rest)
    have IH: "\<exists>pre. ls0 = pre @ pos \<and> pos \<noteq> [] \<and> result_line_fails pint pfloat e (hd pos)"
      if "length ls0 \<le> length rest" "results_loop pint pfloat ls0 r = Inl (e, pos)" for ls0 r
      using less.hyps[of ls0 r] that Cons by simp
    let ?parts = "parse_csv_line_fast l"
    have nt: "\<not> is_terminator ?parts" using less.prems Cons by (auto simp: Let_def split: if_splits)
    consider (point) "length ?parts = 2"
      | (run) "length ?parts \<noteq> 2" "2 < length ?parts"
      | (skip) "length ?parts \<noteq> 2" "\<not> 2 < length ?parts"
      by blast
    then show ?thesis
    proof cases
      case point
      show ?thesis
      proof (cases "point_record pint pfloat ?parts")
        case (Inl e')
        with less.prems Cons nt point have "e' = e" "pos = l # rest" by simp_all
        then show ?thesis using Cons Inl point by (auto simp: result_line_fails_def)
      next
        case (Inr t)
        obtain k v where t: "t = (k, v)" by (cases t) auto
        from less.prems Cons nt point Inr t
        have "results_loop pint pfloat rest (results(k \<mapsto> v)) = Inl (e, pos)" by simp
        from IH[OF le_refl this] obtain pre where "rest = pre @ pos" "pos \<noteq> []"
          "result_line_fails pint pfloat e (hd pos)" by blast
        then have "ls = (l # pre) @ pos" using Cons by simp
        then show ?thesis using \<open>pos \<noteq> []\<close> \<open>result_line_fails pint pfloat e (hd pos)\<close> by blast
      qed
    next
      case run
      show ?thesis
      proof (cases "run_record pint pfloat ?parts")
        case (Inl e')
        with less.prems Cons nt run have "e' = e" "pos = l # rest" by simp_all
        then show ?thesis using Cons Inl run by (auto simp: result_line_fails_def)
      next
        case (Inr t)
        obtain s en vs where t: "t = (s, en, vs)" by (cases t) auto
        show ?thesis
        proof (cases "read_continuation pfloat (entity_count_of s en) vs rest")
          case (Inl f)
          with less.prems Cons nt run Inr t have f: "f = (e, pos)" by simp
          from read_continuation_failure_line[OF Inl[unfolded f]] obtain pre where
            "rest = pre @ pos" "pos \<noteq> []" "floats pfloat (parse_csv_line_fast (hd pos)) = Inl e"
            by blast
          then have "ls = (l # pre) @ pos" "result_line_fails pint pfloat e (hd pos)"
            using Cons by (simp_all add: result_line_fails_def)
          then show ?thesis using \<open>pos \<noteq> []\<close> by blast
        next
          case r2: (Inr u)
          obtain vs' rest' where u: "u = (vs', rest')" by (cases u) auto
          from read_continuation_suffix[OF r2[unfolded u]] obtain used where
            used: "rest = used @ rest'" by blast
          then have len: "length rest' \<le> length rest" by simp
          from less.prems Cons nt run Inr t r2 u
          have "results_loop pint pfloat rest' (assign_run s (entity_count_of s en) vs' results) = Inl (e, pos)"
            by simp
          from IH[OF len this] obtain pre where "rest' = pre @ pos" "pos \<noteq> []"
            "result_line_fails pint pfloat e (hd pos)" by blast
          then have "ls = (l # used @ pre) @ pos" using Cons used by simp
          then show ?thesis using \<open>pos \<noteq> []\<close> \<open>result_line_fails pint pfloat e (hd pos)\<close> by blast
        qed
      qed
    next
      case skip
      from less.prems Cons nt skip have "results_loop pint pfloat rest results = Inl (e, pos)"
        by simp
      from IH[OF le_refl this] obtain pre where "rest = pre @ pos" "pos \<noteq> []"
        "result_line_fails pint pfloat e (hd pos)" by blast
      then have "ls = (l # pre) @ pos" using Cons by simp
      then show ?thesis using \<open>pos \<noteq> []\<close> \<open>result_line_fails pint pfloat e (hd pos)\<close> by blast
    qed
  qed
qed

lemma nodes_arrays_lines_skip:
  assumes "14 \<le> length (parse_csv_line_fast l) \<longrightarrow>
           node_record pint pfloat (parse_csv_line_fast l) = Inl ValueError"
  shows "nodes_arrays_lines pint pfloat (xs @ l # ys) acc =
         nodes_arrays_lines pint pfloat (xs @ ys) acc"
proof (induction xs arbitrary: acc)
  case Nil
  obtain ids cs where "acc = (ids, cs)" by (cases acc) auto
  then show ?case using assms by (auto simp: Let_def)
next
  case (Cons x xs)
  obtain ids cs where acc: "acc = (ids, cs)" by (cases acc) auto
  show ?case
  proof (cases "14 \<le> length (parse_csv_line_fast x)")
    case False
    then show ?thesis using acc by (simp add: Cons)
  next
    case True
    show ?thesis
    proof (cases "node_record pint pfloat (parse_csv_line_fast x)")
      case (Inl e)
      then show ?thesis using True acc by (cases e) (simp_all add: Cons)
    next
      case (Inr t)
      obtain k xyz where "t = (k, xyz)" by (cases t) auto
      then show ?thesis using True Inr acc by (simp add: Cons)
    qed
  qed
qed

lemma results_arrays_loop_failure_line:
  assumes "results_arrays_loop pint pfloat ls acc = Inl (e, pos)"
  shows "\<exists>pre. ls = pre @ pos \<and> pos \<noteq> [] \<and> result_line_fails pint pfloat e (hd pos)"
proof -
  have "map_sum id snd (results_loop pint pfloat ls Map.empty) = Inl (e, pos)"
    using results_arrays_loop_position[of pint pfloat ls acc Map.empty] assms by simp
  then have "results_loop pint pfloat ls Map.empty = Inl (e, pos)"
    by (cases "results_loop pint pfloat ls Map.empty") simp_all
  then show ?thesis by (rule results_loop_failure_line)
qed

text \<open>
  Claim C3, as amended. In \<^verbatim>\<open>get_nodes\<close>, \<^verbatim>\<open>get_nodes_arrays\<close>, \<^verbatim>\<open>get_materials\<close>,
  \<^verbatim>\<open>get_properties\<close>, \<^verbatim>\<open>get_elements\<close>, \<^verbatim>\<open>get_output_sets\<close>, \<^verbatim>\<open>get_output_vectors\<close> and
  \<^verbatim>\<open>get_output_vectors_arrays\<close>, when converting the fields of a record raises
  \<^verbatim>\<open>ValueError\<close>, the record under construction is dropped, what was extracted before is
  kept, and the scan for the next record resumes exactly one line after the line at which
  the line index stood when the conversion failed. For nodes and materials (one line per
  record) the result is that of the block without the malformed line. For properties,
  elements, output sets and the header part of an output vector the line index stands at
  the record's first line, also when the field that fails is on a later line of the
  record, so the scan resumes at the record's second line. Inside the result stream of an
  output vector the line index stands at a line \<open>hd pos\<close> of the stream, the one that
  fails: the vector under construction, with its header and the results collected so far,
  is not returned, and the lines after the failing one are scanned as candidates for a
  vector header.
\<close>

theorem malformed_record_skips_one_line:
  fixes pfloat :: "('f::zero) float_parser"
  shows
  "(14 \<le> length (parse_csv_line_fast l) \<and>
      node_record pint pfloat (parse_csv_line_fast l) = Inl ValueError \<longrightarrow>
      nodes_lines pint pfloat (xs @ l # ys) nodes = nodes_lines pint pfloat (xs @ ys) nodes) \<and>
   (1 \<le> length (parse_csv_line_fast l) \<and>
      c_int pint (parse_csv_line_fast l ! 0) = Inl ValueError \<longrightarrow>
      materials_loop pint (xs @ l # ys) materials = materials_loop pint (xs @ ys) materials) \<and>
   (3 \<le> length (parse_csv_line_fast l) \<and> property_record pint (l # rest) = Inl ValueError \<longrightarrow>
      properties_loop pint (l # rest) properties = properties_loop pint rest properties) \<and>
   (5 \<le> length (parse_csv_line_fast l) \<and> element_record pint (l # rest) = Inl ValueError \<longrightarrow>
      elements_loop pint (l # rest) elements = elements_loop pint rest elements) \<and>
   (1 \<le> length (parse_csv_line_fast l) \<and>
      output_set_record pint pfloat (l # rest) = Inl ValueError \<longrightarrow>
      output_sets_loop pint pfloat (l # rest) output_sets =
        output_sets_loop pint pfloat rest output_sets) \<and>
   (2 \<le> length (parse_csv_line_fast l) \<and> vector_header pint (l # rest) = Inl ValueError \<longrightarrow>
      vectors_loop pint pfloat (l # rest) output_vectors =
        vectors_loop pint pfloat rest output_vectors) \<and>
   (2 \<le> length (parse_csv_line_fast l) \<and> vector_header pint (l # rest) = Inr h \<and>
      results_loop pint pfloat (drop 6 rest) Map.empty = Inl (ValueError, pos) \<longrightarrow>
      (\<exists>pre. drop 6 rest = pre @ pos) \<and> pos \<noteq> [] \<and>
      result_line_fails pint pfloat ValueError (hd pos) \<and>
      vectors_loop pint pfloat (l # rest) output_vectors =
        vectors_loop pint pfloat (tl pos) output_vectors) \<and>
   (14 \<le> length (parse_csv_line_fast l) \<and>
      node_record pint pfloat (parse_csv_line_fast l) = Inl ValueError \<longrightarrow>
      nodes_arrays_lines pint pfloat (xs @ l # ys) arrays =
        nodes_arrays_lines pint pfloat (xs @ ys) arrays) \<and>
   (2 \<le> length (parse_csv_line_fast l) \<and>
      vector_arrays_header pint set_id_filter vec_id_filter (l # rest) = Inl ValueError \<longrightarrow>
      vectors_arrays_loop pint pfloat set_id_filter vec_id_filter (l # rest) =
        vectors_arrays_loop pint pfloat set_id_filter vec_id_filter rest) \<and>
   (2 \<le> length (parse_csv_line_fast l) \<and>
      vector_arrays_header pint set_id_filter vec_id_filter (l # rest) = Inr (Some ha) \<and>
      results_arrays_loop pint pfloat (drop 6 rest) ([], []) = Inl (ValueError, posa) \<longrightarrow>
      (\<exists>pre. drop 6 rest = pre @ posa) \<and> posa \<noteq> [] \<and>
      result_line_fails pint pfloat ValueError (hd posa) \<and>
      vectors_arrays_loop pint pfloat set_id_filter vec_id_filter (l # rest) =
        vectors_arrays_loop pint pfloat set_id_filter vec_id_filter (tl posa))"
proof (intro conjI impI)
  assume "14 \<le> length (parse_csv_line_fast l) \<and>
      node_record pint pfloat (parse_csv_line_fast l) = Inl ValueError"
  then show "nodes_lines pint pfloat (xs @ l # ys) nodes = nodes_lines pint pfloat (xs @ ys) nodes"
    by (intro nodes_lines_skip) simp
next
  assume "1 \<le> length (parse_csv_line_fast l) \<and>
      c_int pint (parse_csv_line_fast l ! 0) = Inl ValueError"
  then show "materials_loop pint (xs @ l # ys) materials = materials_loop pint (xs @ ys) materials"
    by (intro materials_loop_skip) simp
next
  assume "3 \<le> length (parse_csv_line_fast l) \<and> property_record pint (l # rest) = Inl ValueError"
  then show "properties_loop pint (l # rest) properties = properties_loop pint rest properties"
    by simp
next
  assume "5 \<le> length (parse_csv_line_fast l) \<and> element_record pint (l # rest) = Inl ValueError"
  then show "elements_loop pint (l # rest) elements = elements_loop pint rest elements"
    by simp
next
  assume "1 \<le> length (parse_csv_line_fast l) \<and>
      output_set_record pint pfloat (l # rest) = Inl ValueError"
  then show "output_sets_loop pint pfloat (l # rest) output_sets =
        output_sets_loop pint pfloat rest output_sets"
    by simp
next
  assume "2 \<le> length (parse_csv_line_fast l) \<and> vector_header pint (l # rest) = Inl ValueError"
  then show "vectors_loop pint pfloat (l # rest) output_vectors =
        vectors_loop pint pfloat rest output_vectors"
    by simp
next
  assume a: "2 \<le> length (parse_csv_line_fast l) \<and> vector_header pint (l # rest) = Inr h \<and>
      results_loop pint pfloat (drop 6 rest) Map.empty = Inl (ValueError, pos)"
  from results_loop_failure_line[of pint pfloat "drop 6 rest" Map.empty ValueError pos] a
  obtain pre where p: "drop 6 rest = pre @ pos" "pos \<noteq> []"
    "result_line_fails pint pfloat ValueError (hd pos)" by blast
  show "\<exists>pre. drop 6 rest = pre @ pos" using p(1) by blast
  show "pos \<noteq> []" by (rule p(2))
  show "result_line_fails pint pfloat ValueError (hd pos)" by (rule p(3))
  obtain sid vid t et where "h = (sid, vid, t, et)" by (cases h) auto
  then show "vectors_loop pint pfloat (l # rest) output_vectors =
        vectors_loop pint pfloat (tl pos) output_vectors"
    using a by simp
next
  assume "14 \<le> length (parse_csv_line_fast l) \<and>
      node_record pint pfloat (parse_csv_line_fast l) = Inl ValueError"
  then show "nodes_arrays_lines pint pfloat (xs @ l # ys) arrays =
        nodes_arrays_lines pint pfloat (xs @ ys) arrays"
    by (intro nodes_arrays_lines_skip) simp
next
  assume "2 \<le> length (parse_csv_line_fast l) \<and>
      vector_arrays_header pint set_id_filter vec_id_filter (l # rest) = Inl ValueError"
  then show "vectors_arrays_loop pint pfloat set_id_filter vec_id_filter (l # rest) =
        vectors_arrays_loop pint pfloat set_id_filter vec_id_filter rest"
    by simp
next
  assume a: "2 \<le> length (parse_csv_line_fast l) \<and>
      vector_arrays_header pint set_id_filter vec_id_filter (l # rest) = Inr (Some ha) \<and>
      results_arrays_loop pint pfloat (drop 6 rest) ([], []) = Inl (ValueError, posa)"
  from results_arrays_loop_failure_line[of pint pfloat "drop 6 rest" "([], [])" ValueError posa] a
  obtain pre where p: "drop 6 rest = pre @ posa" "posa \<noteq> []"
    "result_line_fails pint pfloat ValueError (hd posa)" by blast
  show "\<exists>pre. drop 6 rest = pre @ posa" using p(1) by blast
  show "posa \<noteq> []" by (rule p(2))
  show "result_line_fails pint pfloat ValueError (hd posa)" by (rule p(3))
  obtain sid vid et where "ha = (sid, vid, et)" by (cases ha) auto
  then show "vectors_arrays_loop pint pfloat set_id_filter vec_id_filter (l # rest) =
        vectors_arrays_loop pint pfloat set_id_filter vec_id_filter (tl posa)"
    using a by simp
qed

theorem malformed_record_skips_one_line_witness:
  "node_record dec_int dec_float (parse_csv_line_fast ''x,0,0,1,46,0,0,0,0,0,0,0.,0.,0.,'') = Inl ValueError \<and>
   nodes_lines dec_int dec_float
     ([''1,0,0,1,46,0,0,0,0,0,0,0.,0.,0.,''] @ ''x,0,0,1,46,0,0,0,0,0,0,0.,0.,0.,'' #
      [''2,0,0,1,46,0,0,0,0,0,0,1.,0.,0.,'']) Map.empty =
   nodes_lines dec_int dec_float
     ([''1,0,0,1,46,0,0,0,0,0,0,0.,0.,0.,''] @ [''2,0,0,1,46,0,0,0,0,0,0,1.,0.,0.,'']) Map.empty \<and>
   c_int dec_int (parse_csv_line_fast ''abc,-601,55,'' ! 0) = Inl ValueError \<and>
   materials_loop dec_int ([''1,-601,55,''] @ ''abc,-601,55,'' # [''2,-601,55,'']) Map.empty =
   materials_loop dec_int ([''1,-601,55,''] @ [''2,-601,55,'']) Map.empty \<and>
   property_record dec_int [''7,24,x,25,1,0,'', ''Solid,''] = Inl ValueError \<and>
   properties_loop dec_int [''7,24,x,25,1,0,'', ''Solid,''] Map.empty =
   properties_loop dec_int [''Solid,''] Map.empty \<and>
   element_record dec_int [''10,124,7,25,2,1,0,0,'', ''1,2,x,0,0,0,0,0,0,0,''] = Inl ValueError \<and>
   elements_loop dec_int [''10,124,7,25,2,1,0,0,'', ''1,2,x,0,0,0,0,0,0,0,''] [] =
   elements_loop dec_int [''1,2,x,0,0,0,0,0,0,0,''] [] \<and>
   output_set_record dec_int dec_float [''1,'', ''Step,'', ''0,3,'', ''abc,''] = Inl ValueError \<and>
   output_sets_loop dec_int dec_float [''1,'', ''Step,'', ''0,3,'', ''abc,''] Map.empty =
   output_sets_loop dec_int dec_float [''Step,'', ''0,3,'', ''abc,''] Map.empty \<and>
   vector_header dec_int [''1,x,1,'', ''Disp,''] = Inl ValueError \<and>
   vectors_loop dec_int dec_float [''1,x,1,'', ''Disp,''] [] =
   vectors_loop dec_int dec_float [''Disp,''] [] \<and>
   vector_header dec_int (vector_header_lines @ [''1,1.0,'', ''x,2.0,'', ''3,3.0,'', ''-1,0.,'']) =
     Inr (1, 60011, ''Disp'', Some 7) \<and>
   results_loop dec_int dec_float [''1,1.0,'', ''x,2.0,'', ''3,3.0,'', ''-1,0.,''] Map.empty =
     Inl (ValueError, [''x,2.0,'', ''3,3.0,'', ''-1,0.,'']) \<and>
   vectors_loop dec_int dec_float
     (vector_header_lines @ [''1,1.0,'', ''x,2.0,'', ''3,3.0,'', ''-1,0.,'']) [] =
   vectors_loop dec_int dec_float [''3,3.0,'', ''-1,0.,''] [] \<and>
   nodes_arrays_lines dec_int dec_float
     ([''1,0,0,1,46,0,0,0,0,0,0,0.,0.,0.,''] @ ''x,0,0,1,46,0,0,0,0,0,0,0.,0.,0.,'' #
      [''2,0,0,1,46,0,0,0,0,0,0,1.,0.,0.,'']) ([], []) =
   nodes_arrays_lines dec_int dec_float
     ([''1,0,0,1,46,0,0,0,0,0,0,0.,0.,0.,''] @ [''2,0,0,1,46,0,0,0,0,0,0,1.,0.,0.,'']) ([], []) \<and>
   vector_arrays_header dec_int (- 1) (- 1) [''1,x,1,'', ''Disp,''] = Inl ValueError \<and>
   vectors_arrays_loop dec_int dec_float (- 1) (- 1) [''1,x,1,'', ''Disp,''] =
   vectors_arrays_loop dec_int dec_float (- 1) (- 1) [''Disp,''] \<and>
   vector_arrays_header dec_int (- 1) (- 1)
     (vector_header_lines @ [''1,1.0,'', ''x,2.0,'', ''3,3.0,'', ''-1,0.,'']) =
     Inr (Some (1, 60011, 7)) \<and>
   results_arrays_loop dec_int dec_float [''1,1.0,'', ''x,2.0,'', ''3,3.0,'', ''-1,0.,''] ([], []) =
     Inl (ValueError, [''x,2.0,'', ''3,3.0,'', ''-1,0.,'']) \<and>
   vectors_arrays_loop dec_int dec_float (- 1) (- 1)
     (vector_header_lines @ [''1,1.0,'', ''x,2.0,'', ''3,3.0,'', ''-1,0.,'']) =
   vectors_arrays_loop dec_int dec_float (- 1) (- 1) [''3,3.0,'', ''-1,0.,'']"
proof -
  have n0: "14 \<le> length (parse_csv_line_fast ''x,0,0,1,46,0,0,0,0,0,0,0.,0.,0.,'')" by code_simp
  have n1: "node_record dec_int dec_float (parse_csv_line_fast ''x,0,0,1,46,0,0,0,0,0,0,0.,0.,0.,'') =
            Inl ValueError" by code_simp
  have m0: "1 \<le> length (parse_csv_line_fast ''abc,-601,55,'')" by code_simp
  have m1: "c_int dec_int (parse_csv_line_fast ''abc,-601,55,'' ! 0) = Inl ValueError" by code_simp
  have p0: "3 \<le> length (parse_csv_line_fast ''7,24,x,25,1,0,'')" by code_simp
  have p1: "property_record dec_int [''7,24,x,25,1,0,'', ''Solid,''] = Inl ValueError" by code_simp
  have e0: "5 \<le> length (parse_csv_line_fast ''10,124,7,25,2,1,0,0,'')" by code_simp
  have e1: "element_record dec_int [''10,124,7,25,2,1,0,0,'', ''1,2,x,0,0,0,0,0,0,0,''] = Inl ValueError"
    by code_simp
  have s0: "1 \<le> length (parse_csv_line_fast ''1,'')" by code_simp
  have s1: "output_set_record dec_int dec_float [''1,'', ''Step,'', ''0,3,'', ''abc,''] = Inl ValueError"
    by code_simp
  have v0: "2 \<le> length (parse_csv_line_fast ''1,x,1,'')" by code_simp
  have v1: "vector_header dec_int [''1,x,1,'', ''Disp,''] = Inl ValueError" by code_simp
  have w0: "2 \<le> length (parse_csv_line_fast ''1,60011,1,'')" by code_simp
  have w1: "vector_header dec_int
      (vector_header_lines @ [''1,1.0,'', ''x,2.0,'', ''3,3.0,'', ''-1,0.,'']) =
     Inr (1, 60011, ''Disp'', Some 7)" by code_simp
  have "map_sum id (\<lambda>r. ())
      (results_loop dec_int dec_float [''1,1.0,'', ''x,2.0,'', ''3,3.0,'', ''-1,0.,''] Map.empty) =
     Inl (ValueError, [''x,2.0,'', ''3,3.0,'', ''-1,0.,''])" by code_simp
  then have w2: "results_loop dec_int dec_float [''1,1.0,'', ''x,2.0,'', ''3,3.0,'', ''-1,0.,''] Map.empty =
     Inl (ValueError, [''x,2.0,'', ''3,3.0,'', ''-1,0.,''])"
    by (cases "results_loop dec_int dec_float [''1,1.0,'', ''x,2.0,'', ''3,3.0,'', ''-1,0.,''] Map.empty")
       simp_all
  note T = malformed_record_skips_one_line[where pint = dec_int and pfloat = dec_float]
  have c1: "nodes_lines dec_int dec_float
     ([''1,0,0,1,46,0,0,0,0,0,0,0.,0.,0.,''] @ ''x,0,0,1,46,0,0,0,0,0,0,0.,0.,0.,'' #
      [''2,0,0,1,46,0,0,0,0,0,0,1.,0.,0.,'']) Map.empty =
   nodes_lines dec_int dec_float
     ([''1,0,0,1,46,0,0,0,0,0,0,0.,0.,0.,''] @ [''2,0,0,1,46,0,0,0,0,0,0,1.,0.,0.,'']) Map.empty"
    using T[where l = "''x,0,0,1,46,0,0,0,0,0,0,0.,0.,0.,''"] n0 n1 by blast
  have c2: "materials_loop dec_int ([''1,-601,55,''] @ ''abc,-601,55,'' # [''2,-601,55,'']) Map.empty =
   materials_loop dec_int ([''1,-601,55,''] @ [''2,-601,55,'']) Map.empty"
    using T[where l = "''abc,-601,55,''"] m0 m1 by blast
  have c3: "properties_loop dec_int [''7,24,x,25,1,0,'', ''Solid,''] Map.empty =
   properties_loop dec_int [''Solid,''] Map.empty"
    using T[where l = "''7,24,x,25,1,0,''" and rest = "[''Solid,'']"] p0 p1 by blast
  have c4: "elements_loop dec_int [''10,124,7,25,2,1,0,0,'', ''1,2,x,0,0,0,0,0,0,0,''] [] =
   elements_loop dec_int [''1,2,x,0,0,0,0,0,0,0,''] []"
    using T[where l = "''10,124,7,25,2,1,0,0,''" and rest = "[''1,2,x,0,0,0,0,0,0,0,'']"] e0 e1
    by blast
  have c5: "output_sets_loop dec_int dec_float [''1,'', ''Step,'', ''0,3,'', ''abc,''] Map.empty =
   output_sets_loop dec_int dec_float [''Step,'', ''0,3,'', ''abc,''] Map.empty"
    using T[where l = "''1,''" and rest = "[''Step,'', ''0,3,'', ''abc,'']"] s0 s1 by blast
  have c6: "vectors_loop dec_int dec_float [''1,x,1,'', ''Disp,''] [] =
   vectors_loop dec_int dec_float [''Disp,''] []"
    using T[where l = "''1,x,1,''" and rest = "[''Disp,'']"] v0 v1 by blast
  have d: "vector_header_lines @ [''1,1.0,'', ''x,2.0,'', ''3,3.0,'', ''-1,0.,''] =
     ''1,60011,1,'' # (tl vector_header_lines @ [''1,1.0,'', ''x,2.0,'', ''3,3.0,'', ''-1,0.,''])"
    "drop 6 (tl vector_header_lines @ [''1,1.0,'', ''x,2.0,'', ''3,3.0,'', ''-1,0.,'']) =
       [''1,1.0,'', ''x,2.0,'', ''3,3.0,'', ''-1,0.,'']"
    by (simp_all add: vector_header_lines_def)
  have c7: "vectors_loop dec_int dec_float
     (vector_header_lines @ [''1,1.0,'', ''x,2.0,'', ''3,3.0,'', ''-1,0.,'']) [] =
   vectors_loop dec_int dec_float [''3,3.0,'', ''-1,0.,''] []"
    using T[where l = "''1,60011,1,''"
          and rest = "tl vector_header_lines @ [''1,1.0,'', ''x,2.0,'', ''3,3.0,'', ''-1,0.,'']"
          and h = "(1, 60011, ''Disp'', Some 7)"
          and pos = "[''x,2.0,'', ''3,3.0,'', ''-1,0.,'']"
          and output_vectors = "[]"]
      w0 w1 w2 unfolding d(1)[symmetric] d(2) by simp
  have c8: "nodes_arrays_lines dec_int dec_float
     ([''1,0,0,1,46,0,0,0,0,0,0,0.,0.,0.,''] @ ''x,0,0,1,46,0,0,0,0,0,0,0.,0.,0.,'' #
      [''2,0,0,1,46,0,0,0,0,0,0,1.,0.,0.,'']) ([], []) =
   nodes_arrays_lines dec_int dec_float
     ([''1,0,0,1,46,0,0,0,0,0,0,0.,0.,0.,''] @ [''2,0,0,1,46,0,0,0,0,0,0,1.,0.,0.,'']) ([], [])"
    using T[where l = "''x,0,0,1,46,0,0,0,0,0,0,0.,0.,0.,''"] n0 n1 by blast
  have a1: "vector_arrays_header dec_int (- 1) (- 1) [''1,x,1,'', ''Disp,''] = Inl ValueError"
    by code_simp
  have c9: "vectors_arrays_loop dec_int dec_float (- 1) (- 1) [''1,x,1,'', ''Disp,''] =
   vectors_arrays_loop dec_int dec_float (- 1) (- 1) [''Disp,'']"
    using T[where l = "''1,x,1,''" and rest = "[''Disp,'']" and set_id_filter = "- 1"
          and vec_id_filter = "- 1"] v0 a1 by blast
  have a2: "vector_arrays_header dec_int (- 1) (- 1)
     (vector_header_lines @ [''1,1.0,'', ''x,2.0,'', ''3,3.0,'', ''-1,0.,'']) =
     Inr (Some (1, 60011, 7))" by code_simp
  have a3: "results_arrays_loop dec_int dec_float [''1,1.0,'', ''x,2.0,'', ''3,3.0,'', ''-1,0.,'']
       ([], []) = Inl (ValueError, [''x,2.0,'', ''3,3.0,'', ''-1,0.,''])" by code_simp
  have c10: "vectors_arrays_loop dec_int dec_float (- 1) (- 1)
     (vector_header_lines @ [''1,1.0,'', ''x,2.0,'', ''3,3.0,'', ''-1,0.,'']) =
   vectors_arrays_loop dec_int dec_float (- 1) (- 1) [''3,3.0,'', ''-1,0.,'']"
    using T[where l = "''1,60011,1,''"
          and rest = "tl vector_header_lines @ [''1,1.0,'', ''x,2.0,'', ''3,3.0,'', ''-1,0.,'']"
          and ha = "(1, 60011, 7)"
          and posa = "[''x,2.0,'', ''3,3.0,'', ''-1,0.,'']"
          and set_id_filter = "- 1" and vec_id_filter = "- 1"]
      w0 a2 a3 unfolding d(1)[symmetric] d(2) by simp
  show ?thesis using n1 c1 m1 c2 p1 c3 e1 c4 s1 c5 v1 c6 w1 w2 c7 c8 a1 c9 a2 a3 c10 by blast
qed

text \<open>
  Claim C3 as stated fails in the result stream of an output vector. With the malformed
  line \<^verbatim>\<open>x,2.0,\<close> between two result records no vector is returned at all; without that
  line the vector is returned with the results of both records. It also fails for a
  well-formed record that follows a malformed one: after the property record with the
  material ID \<^verbatim>\<open>x\<close> the scan takes the third line of that record for a property and steps
  over the first line of the record of property 8, which is not extracted.
\<close>

theorem malformed_result_line_counterexample:
  "map_sum id (map (\<lambda>v. (vec_set_id v, vec_vec_id v, vec_results v 1, vec_results v 3)))
     (bind_err
        (parse dec_int (file_text
           [vectors_block (vector_header_lines @ [''1,1.0,'', ''x,2.0,'', ''3,3.0,'', ''-1,0.,''])]))
        (get_output_vectors dec_int dec_float)) = Inr [] \<and>
   map_sum id (map (\<lambda>v. (vec_set_id v, vec_vec_id v, vec_results v 1, vec_results v 3)))
     (bind_err
        (parse dec_int (file_text
           [vectors_block (vector_header_lines @ [''1,1.0,'', ''3,3.0,'', ''-1,0.,''])]))
        (get_output_vectors dec_int dec_float)) = Inr [(1, 60011, Some 1, Some 3)] \<and>
   property_record dec_int property_lines_malformed = Inl ValueError \<and>
   property_record dec_int property_lines_b =
     Inr (8, \<lparr>prop_material_id = 2, prop_title = []\<rparr>) \<and>
   map_sum id (\<lambda>m. m 8)
     (bind_err
        (parse dec_int (file_text
           [properties_block (property_lines_malformed @ property_lines_b)]))
        (get_properties dec_int)) = Inr None \<and>
   map_sum id (\<lambda>m. m 8)
     (bind_err
        (parse dec_int (file_text [properties_block property_lines_b]))
        (get_properties dec_int)) = Inr (Some \<lparr>prop_material_id = 2, prop_title = []\<rparr>)"
  by code_simp

section \<open>Blocks cut in two\<close>

lemma nodes_lines_append:
  "nodes_lines pint pfloat (xs @ ys) m =
     bind_err (nodes_lines pint pfloat xs m) (nodes_lines pint pfloat ys)"
proof (induction xs arbitrary: m)
  case Nil
  show ?case by simp
next
  case (Cons x xs)
  show ?case
  proof (cases "14 \<le> length (parse_csv_line_fast x)")
    case False
    then show ?thesis by (simp add: Cons)
  next
    case True
    show ?thesis
    proof (cases "node_record pint pfloat (parse_csv_line_fast x)")
      case (Inl e)
      then show ?thesis using True by (cases e) (simp_all add: Cons)
    next
      case (Inr t)
      obtain k xyz where "t = (k, xyz)" by (cases t) auto
      then show ?thesis using True Inr by (simp add: Cons fun_upd_def)
    qed
  qed
qed

lemma materials_loop_append:
  "materials_loop pint (xs @ ys) m =
     bind_err (materials_loop pint xs m) (materials_loop pint ys)"
proof (induction xs arbitrary: m)
  case Nil
  show ?case by simp
next
  case (Cons x xs)
  show ?case
  proof (cases "1 \<le> length (parse_csv_line_fast x)")
    case False
    then show ?thesis by (simp add: Cons)
  next
    case True
    show ?thesis
    proof (cases "c_int pint (parse_csv_line_fast x ! 0)")
      case (Inl e)
      then show ?thesis using True by (cases e) (simp_all add: Cons)
    next
      case (Inr k)
      then show ?thesis using True by (simp add: Cons fun_upd_def)
    qed
  qed
qed

lemma title_slot_append: "1 \<le> length rest \<Longrightarrow> title_slot (l # rest @ ys) = title_slot (l # rest)"
  by (cases rest) (simp_all add: title_slot_def)

lemma property_record_error:
  "property_record pint (l # rest) = Inl e \<Longrightarrow> property_record pint (l # rest') = Inl e"
  by (auto simp: property_record_def bind_err_def Let_def split: sum.splits)

lemma property_record_local:
  "1 \<le> length rest \<Longrightarrow> property_record pint (l # rest @ ys) = property_record pint (l # rest)"
  by (simp add: property_record_def title_slot_append)

lemma properties_loop_pass_over:
  "properties_pass_over pint n ys \<Longrightarrow> properties_loop pint ys m = properties_loop pint (drop n ys) m"
proof (induction n arbitrary: ys)
  case 0
  show ?case by simp
next
  case (Suc n)
  show ?case
  proof (cases ys)
    case Nil
    then show ?thesis by simp
  next
    case (Cons l rest)
    have p: "length (parse_csv_line_fast l) < 3 \<or> property_record pint (l # rest) = Inl ValueError"
      and r: "properties_pass_over pint n rest"
      using Suc.prems Cons by simp_all
    have "properties_loop pint (l # rest) m = properties_loop pint rest m"
      using p by (cases "3 \<le> length (parse_csv_line_fast l)") auto
    then show ?thesis using Cons Suc.IH[OF r] by simp
  qed
qed

lemma properties_loop_append:
  "properties_cut_rejoins pint xs ys \<Longrightarrow>
   properties_loop pint (xs @ ys) m =
     bind_err (properties_loop pint xs m) (properties_loop pint ys)"
proof (induction "length xs" arbitrary: xs m rule: less_induct)
  case less
  show ?case
  proof (cases xs)
    case Nil
    then show ?thesis by simp
  next
    case (Cons l rest)
    have IH: "properties_loop pint (xs' @ ys) a' =
        bind_err (properties_loop pint xs' a') (properties_loop pint ys)"
      if "length xs' \<le> length rest" "properties_cut_rejoins pint xs' ys" for xs' a'
      using less.hyps[of xs' a'] that Cons by simp
    show ?thesis
    proof (cases "3 \<le> length (parse_csv_line_fast l)")
      case False
      then show ?thesis using Cons less.prems IH[of rest m] by simp
    next
      case True
      show ?thesis
      proof (cases "property_record pint (l # rest)")
        case (Inl e)
        have "property_record pint (l # rest @ ys) = Inl e"
          using Inl by (rule property_record_error)
        then show ?thesis using Cons True Inl less.prems IH[of rest m]
          by (cases e) simp_all
      next
        case (Inr t)
        obtain k p where t: "t = (k, p)" by (cases t) auto
        show ?thesis
        proof (cases "6 \<le> length rest")
          case inside: True
          then have w: "properties_cut_rejoins pint (drop 6 rest) ys"
            using less.prems Cons True Inr by simp
          have "property_record pint (l # rest @ ys) = Inr t"
            using Inr inside by (simp add: property_record_local)
          then show ?thesis
            using Cons True Inr t inside w IH[of "drop 6 rest" "m(k \<mapsto> p)"] by simp
        next
          case past: False
          then have w: "property_record pint (l # rest @ ys) = Inr t"
              "properties_pass_over pint (6 - length rest) ys"
            using less.prems Cons True Inr by simp_all
          have d: "drop 6 (rest @ ys) = drop (6 - length rest) ys" "drop 6 rest = []"
            using past by simp_all
          have sk: "properties_loop pint ys a' =
                properties_loop pint (drop (6 - length rest) ys) a'" for a'
            using w(2) by (rule properties_loop_pass_over)
          show ?thesis
            using Cons True Inr t w(1) d sk[of "m(k \<mapsto> p)"] by simp
        qed
      qed
    qed
  qed
qed

lemma element_record_local:
  "2 \<le> length rest \<Longrightarrow> element_record pint (l # rest @ ys) = element_record pint (l # rest)"
  by (cases rest; cases "tl rest") (simp_all add: element_record_def nth_append)

lemma element_record_error:
  assumes "element_record pint (l # rest) = Inl e"
  shows "element_record pint (l # rest @ ys) = Inl e"
proof (cases "2 \<le> length rest")
  case True
  then show ?thesis using assms by (simp add: element_record_local)
next
  case False
  then consider "rest = []" | a where "rest = [a]"
    by (cases rest; cases "tl rest") auto
  then show ?thesis
  proof cases
    case 1
    with assms show ?thesis
      by (auto simp: element_record_def bind_err_def Let_def split: sum.splits)
  next
    case 2
    with assms show ?thesis
      by (auto simp: element_record_def bind_err_def Let_def split: sum.splits)
  qed
qed

lemma elements_loop_pass_over:
  "elements_pass_over pint n ys \<Longrightarrow> elements_loop pint ys acc = elements_loop pint (drop n ys) acc"
proof (induction n arbitrary: ys)
  case 0
  show ?case by simp
next
  case (Suc n)
  show ?case
  proof (cases ys)
    case Nil
    then show ?thesis by simp
  next
    case (Cons l rest)
    have p: "length (parse_csv_line_fast l) < 5 \<or> element_record pint (l # rest) = Inl ValueError"
      and r: "elements_pass_over pint n rest"
      using Suc.prems Cons by simp_all
    have "elements_loop pint (l # rest) acc = elements_loop pint rest acc"
      using p by (cases "5 \<le> length (parse_csv_line_fast l)") auto
    then show ?thesis using Cons Suc.IH[OF r] by simp
  qed
qed

lemma elements_loop_append:
  "elements_cut_rejoins pint xs ys \<Longrightarrow>
   elements_loop pint (xs @ ys) acc =
     bind_err (elements_loop pint xs acc) (elements_loop pint ys)"
proof (induction "length xs" arbitrary: xs acc rule: less_induct)
  case less
  show ?case
  proof (cases xs)
    case Nil
    then show ?thesis by simp
  next
    case (Cons l rest)
    have IH: "elements_loop pint (xs' @ ys) a' =
        bind_err (elements_loop pint xs' a') (elements_loop pint ys)"
      if "length xs' \<le> length rest" "elements_cut_rejoins pint xs' ys" for xs' a'
      using less.hyps[of xs' a'] that Cons by simp
    show ?thesis
    proof (cases "5 \<le> length (parse_csv_line_fast l)")
      case False
      then show ?thesis using Cons less.prems IH[of rest acc] by simp
    next
      case True
      show ?thesis
      proof (cases "element_record pint (l # rest)")
        case (Inl e)
        have "element_record pint (l # rest @ ys) = Inl e"
          using Inl by (rule element_record_error)
        then show ?thesis using Cons True Inl less.prems IH[of rest acc]
          by (cases e) simp_all
      next
        case (Inr t)
        have t: "t = t" by simp
        show ?thesis
        proof (cases "6 \<le> length rest")
          case inside: True
          then have w: "elements_cut_rejoins pint (drop 6 rest) ys"
            using less.prems Cons True Inr by simp
          have "element_record pint (l # rest @ ys) = Inr t"
            using Inr inside by (simp add: element_record_local)
          then show ?thesis
            using Cons True Inr t inside w IH[of "drop 6 rest" "acc @ [t]"] by simp
        next
          case past: False
          then have w: "element_record pint (l # rest @ ys) = Inr t"
              "elements_pass_over pint (6 - length rest) ys"
            using less.prems Cons True Inr by simp_all
          have d: "drop 6 (rest @ ys) = drop (6 - length rest) ys" "drop 6 rest = []"
            using past by simp_all
          have sk: "elements_loop pint ys a' =
                elements_loop pint (drop (6 - length rest) ys) a'" for a'
            using w(2) by (rule elements_loop_pass_over)
          show ?thesis
            using Cons True Inr t w(1) d sk[of "acc @ [t]"] by simp
        qed
      qed
    qed
  qed
qed

lemma output_set_record_local:
  "3 \<le> length rest \<Longrightarrow>
   output_set_record pint pfloat (l # rest @ ys) = output_set_record pint pfloat (l # rest)"
  by (simp add: output_set_record_def nth_append title_slot_append)

lemma output_set_record_error:
  assumes "output_set_record pint pfloat (l # rest) = Inl e"
  shows "output_set_record pint pfloat (l # rest @ ys) = Inl e"
proof (cases "3 \<le> length rest")
  case True
  then show ?thesis using assms by (simp add: output_set_record_local)
next
  case False
  with assms show ?thesis
    by (auto simp: output_set_record_def bind_err_def Let_def split: sum.splits)
qed

lemma output_sets_loop_pass_over:
  "output_sets_pass_over pint pfloat n ys \<Longrightarrow> output_sets_loop pint pfloat ys m = output_sets_loop pint pfloat (drop n ys) m"
proof (induction n arbitrary: ys)
  case 0
  show ?case by simp
next
  case (Suc n)
  show ?case
  proof (cases ys)
    case Nil
    then show ?thesis by simp
  next
    case (Cons l rest)
    have p: "length (parse_csv_line_fast l) < 1 \<or> output_set_record pint pfloat (l # rest) = Inl ValueError"
      and r: "output_sets_pass_over pint pfloat n rest"
      using Suc.prems Cons by simp_all
    have "output_sets_loop pint pfloat (l # rest) m = output_sets_loop pint pfloat rest m"
      using p by (cases "1 \<le> length (parse_csv_line_fast l)") auto
    then show ?thesis using Cons Suc.IH[OF r] by simp
  qed
qed

lemma output_sets_loop_append:
  "output_sets_cut_rejoins pint pfloat xs ys \<Longrightarrow>
   output_sets_loop pint pfloat (xs @ ys) m =
     bind_err (output_sets_loop pint pfloat xs m) (output_sets_loop pint pfloat ys)"
proof (induction "length xs" arbitrary: xs m rule: less_induct)
  case less
  show ?case
  proof (cases xs)
    case Nil
    then show ?thesis by simp
  next
    case (Cons l rest)
    have IH: "output_sets_loop pint pfloat (xs' @ ys) a' =
        bind_err (output_sets_loop pint pfloat xs' a') (output_sets_loop pint pfloat ys)"
      if "length xs' \<le> length rest" "output_sets_cut_rejoins pint pfloat xs' ys" for xs' a'
      using less.hyps[of xs' a'] that Cons by simp
    show ?thesis
    proof (cases "1 \<le> length (parse_csv_line_fast l)")
      case False
      then show ?thesis using Cons less.prems IH[of rest m] by simp
    next
      case True
      show ?thesis
      proof (cases "output_set_record pint pfloat (l # rest)")
        case (Inl e)
        have "output_set_record pint pfloat (l # rest @ ys) = Inl e"
          using Inl by (rule output_set_record_error)
        then show ?thesis using Cons True Inl less.prems IH[of rest m]
          by (cases e) simp_all
      next
        case (Inr t)
        obtain k p where t: "t = (k, p)" by (cases t) auto
        show ?thesis
        proof (cases "5 \<le> length rest")
          case inside: True
          then have w: "output_sets_cut_rejoins pint pfloat (drop 5 rest) ys"
            using less.prems Cons True Inr by simp
          have "output_set_record pint pfloat (l # rest @ ys) = Inr t"
            using Inr inside by (simp add: output_set_record_local)
          then show ?thesis
            using Cons True Inr t inside w IH[of "drop 5 rest" "m(k \<mapsto> p)"] by simp
        next
          case past: False
          then have w: "output_set_record pint pfloat (l # rest @ ys) = Inr t"
              "output_sets_pass_over pint pfloat (5 - length rest) ys"
            using less.prems Cons True Inr by simp_all
          have d: "drop 5 (rest @ ys) = drop (5 - length rest) ys" "drop 5 rest = []"
            using past by simp_all
          have sk: "output_sets_loop pint pfloat ys a' =
                output_sets_loop pint pfloat (drop (5 - length rest) ys) a'" for a'
            using w(2) by (rule output_sets_loop_pass_over)
          show ?thesis
            using Cons True Inr t w(1) d sk[of "m(k \<mapsto> p)"] by simp
        qed
      qed
    qed
  qed
qed

lemma read_continuation_stops_inside:
  "read_continuation pfloat n vals rest = Inr (vs, rest') \<Longrightarrow> rest' \<noteq> [] \<Longrightarrow>
   read_continuation pfloat n vals (rest @ ys) = Inr (vs, rest' @ ys)"
  by (induction rest arbitrary: vals) (auto simp: Let_def split: if_splits sum.splits)

lemma read_continuation_fails_inside:
  "read_continuation pfloat n vals rest = Inl (e, pos) \<Longrightarrow>
   read_continuation pfloat n vals (rest @ ys) = Inl (e, pos @ ys)"
  by (induction rest arbitrary: vals) (auto simp: Let_def split: if_splits sum.splits)

lemma results_loop_closed_append:
  "results_closed pint pfloat ls \<Longrightarrow>
   results_loop pint pfloat (ls @ ys) results =
     (case results_loop pint pfloat ls results of
        Inl (e, pos) \<Rightarrow> Inl (e, pos @ ys)
      | Inr (res, rest') \<Rightarrow> Inr (res, rest' @ ys))"
proof (induction "length ls" arbitrary: ls results rule: less_induct)
  case less
  show ?case
  proof (cases ls)
    case Nil
    with less.prems show ?thesis by simp
  next
    case (Cons l rest)
    have IH: "results_loop pint pfloat (ls0 @ ys) r =
       (case results_loop pint pfloat ls0 r of
          Inl (e, pos) \<Rightarrow> Inl (e, pos @ ys)
        | Inr (res, rest') \<Rightarrow> Inr (res, rest' @ ys))"
      if "length ls0 \<le> length rest" "results_closed pint pfloat ls0" for ls0 r
      using less.hyps[of ls0 r] that Cons by simp
    let ?parts = "parse_csv_line_fast l"
    consider (fin) "is_terminator ?parts"
      | (point) "\<not> is_terminator ?parts" "length ?parts = 2"
      | (run) "\<not> is_terminator ?parts" "length ?parts \<noteq> 2" "2 < length ?parts"
      | (skip) "\<not> is_terminator ?parts" "length ?parts \<noteq> 2" "\<not> 2 < length ?parts"
      by blast
    then show ?thesis
    proof cases
      case fin
      then show ?thesis using Cons by simp
    next
      case point
      show ?thesis
      proof (cases "point_record pint pfloat ?parts")
        case (Inl e)
        then show ?thesis using Cons point by simp
      next
        case (Inr t)
        obtain k v where t: "t = (k, v)" by (cases t) auto
        have "results_closed pint pfloat rest" using less.prems Cons point Inr by simp
        from IH[OF le_refl this, of "results(k \<mapsto> v)"] show ?thesis
          using Cons point Inr t by simp
      qed
    next
      case run
      show ?thesis
      proof (cases "run_record pint pfloat ?parts")
        case (Inl e)
        then show ?thesis using Cons run by simp
      next
        case (Inr t)
        obtain s en vs where t: "t = (s, en, vs)" by (cases t) auto
        show ?thesis
        proof (cases "read_continuation pfloat (entity_count_of s en) vs rest")
          case (Inl f)
          obtain e1 p1 where f: "f = (e1, p1)" by (cases f) auto
          from read_continuation_fails_inside[OF Inl[unfolded f], of ys]
          show ?thesis using Cons run Inr t Inl f by simp
        next
          case r2: (Inr u)
          obtain vs' rest' where u: "u = (vs', rest')" by (cases u) auto
          have c: "results_closed pint pfloat rest'"
            using less.prems Cons run Inr t r2 u by simp
          then have ne: "rest' \<noteq> []" by auto
          have len: "length rest' \<le> length rest"
            using read_continuation_length[OF r2[unfolded u]] .
          from read_continuation_stops_inside[OF r2[unfolded u] ne, of ys]
            IH[OF len c, of "assign_run s (entity_count_of s en) vs' results"]
          show ?thesis using Cons run Inr t r2 u by simp
        qed
      qed
    next
      case skip
      have "results_closed pint pfloat rest" using less.prems Cons skip by simp
      from IH[OF le_refl this, of results] show ?thesis
        using Cons skip by simp
    qed
  qed
qed

lemma vector_header_local:
  "5 \<le> length rest \<Longrightarrow> vector_header pint (l # rest @ ys) = vector_header pint (l # rest)"
  by (simp add: vector_header_def nth_append title_slot_append)

lemma vector_header_error:
  assumes "vector_header pint (l # rest) = Inl e"
  shows "vector_header pint (l # rest @ ys) = Inl e"
proof (cases "5 \<le> length rest")
  case True
  then show ?thesis using assms by (simp add: vector_header_local)
next
  case False
  with assms show ?thesis
    by (auto simp: vector_header_def bind_err_def Let_def split: sum.splits)
qed


lemma results_loop_not_closed:
  "\<not> results_closed pint pfloat ls \<Longrightarrow> \<exists>res. results_loop pint pfloat ls results = Inr (res, [])"
proof (induction "length ls" arbitrary: ls results rule: less_induct)
  case less
  show ?case
  proof (cases ls)
    case Nil
    then show ?thesis by simp
  next
    case (Cons l rest)
    have IH: "\<exists>res. results_loop pint pfloat ls0 r = Inr (res, [])"
      if "length ls0 \<le> length rest" "\<not> results_closed pint pfloat ls0" for ls0 r
      using less.hyps[of ls0 r] that Cons by simp
    let ?parts = "parse_csv_line_fast l"
    have nt: "\<not> is_terminator ?parts" using less.prems Cons by (auto simp: Let_def)
    consider (point) "length ?parts = 2"
      | (run) "length ?parts \<noteq> 2" "2 < length ?parts"
      | (skip) "length ?parts \<noteq> 2" "\<not> 2 < length ?parts"
      by blast
    then show ?thesis
    proof cases
      case point
      show ?thesis
      proof (cases "point_record pint pfloat ?parts")
        case (Inl e)
        then show ?thesis using less.prems Cons nt point by simp
      next
        case (Inr u)
        obtain k v where u: "u = (k, v)" by (cases u) auto
        have "\<not> results_closed pint pfloat rest" using less.prems Cons nt point Inr by simp
        from IH[OF le_refl this, of "results(k \<mapsto> v)"] show ?thesis
          using Cons nt point Inr u by simp
      qed
    next
      case run
      show ?thesis
      proof (cases "run_record pint pfloat ?parts")
        case (Inl e)
        then show ?thesis using less.prems Cons nt run by simp
      next
        case (Inr u)
        obtain s en vs where u: "u = (s, en, vs)" by (cases u) auto
        show ?thesis
        proof (cases "read_continuation pfloat (entity_count_of s en) vs rest")
          case (Inl f)
          then show ?thesis using less.prems Cons nt run Inr u by simp
        next
          case r2: (Inr w)
          obtain vs' rest0 where w: "w = (vs', rest0)" by (cases w) auto
          have 1: "\<not> results_closed pint pfloat rest0"
            using less.prems Cons nt run Inr u r2 w by simp
          have len: "length rest0 \<le> length rest"
            using read_continuation_length[OF r2[unfolded w]] .
          from IH[OF len 1, of "assign_run s (entity_count_of s en) vs' results"]
          show ?thesis using Cons nt run Inr u r2 w by simp
        qed
      qed
    next
      case skip
      have "\<not> results_closed pint pfloat rest" using less.prems Cons nt skip by simp
      from IH[OF le_refl this, of results] show ?thesis using Cons nt skip by simp
    qed
  qed
qed

lemma read_continuation_open:
  "read_continuation pfloat n vals ls = Inr (vs, []) \<Longrightarrow> is_terminator (parse_csv_line_fast t) \<Longrightarrow>
   read_continuation pfloat n vals (ls @ t # ys) = Inr (vs, t # ys)"
  by (induction ls arbitrary: vals) (auto simp: Let_def split: if_splits sum.splits)

lemma results_loop_open:
  "\<not> results_closed pint pfloat ls \<Longrightarrow> results_loop pint pfloat ls results = Inr (res, rest') \<Longrightarrow>
   is_terminator (parse_csv_line_fast t) \<Longrightarrow>
   rest' = [] \<and> results_loop pint pfloat (ls @ t # ys) results = Inr (res, ys)"
proof (induction "length ls" arbitrary: ls results rule: less_induct)
  case less
  note tmn = less.prems(3)
  show ?case
  proof (cases ls)
    case Nil
    with less.prems show ?thesis by simp
  next
    case (Cons l rest)
    have IH: "rest' = [] \<and> results_loop pint pfloat (ls0 @ t # ys) r = Inr (res, ys)"
      if "length ls0 \<le> length rest" "\<not> results_closed pint pfloat ls0"
         "results_loop pint pfloat ls0 r = Inr (res, rest')" for ls0 r
      using less.hyps[of ls0 r] that Cons tmn by simp
    let ?parts = "parse_csv_line_fast l"
    have nt: "\<not> is_terminator ?parts" using less.prems(1) Cons by (auto simp: Let_def)
    consider (point) "length ?parts = 2"
      | (run) "length ?parts \<noteq> 2" "2 < length ?parts"
      | (skip) "length ?parts \<noteq> 2" "\<not> 2 < length ?parts"
      by blast
    then show ?thesis
    proof cases
      case point
      show ?thesis
      proof (cases "point_record pint pfloat ?parts")
        case (Inl e)
        then show ?thesis using less.prems(1) Cons nt point by simp
      next
        case (Inr u)
        obtain k v where u: "u = (k, v)" by (cases u) auto
        have 1: "\<not> results_closed pint pfloat rest" using less.prems(1) Cons nt point Inr by simp
        have 2: "results_loop pint pfloat rest (results(k \<mapsto> v)) = Inr (res, rest')"
          using less.prems(2) Cons nt point Inr u by simp
        from IH[OF le_refl 1 2] show ?thesis using Cons nt point Inr u by simp
      qed
    next
      case run
      show ?thesis
      proof (cases "run_record pint pfloat ?parts")
        case (Inl e)
        then show ?thesis using less.prems(1) Cons nt run by simp
      next
        case (Inr u)
        obtain s en vs where u: "u = (s, en, vs)" by (cases u) auto
        show ?thesis
        proof (cases "read_continuation pfloat (entity_count_of s en) vs rest")
          case (Inl f)
          then show ?thesis using less.prems(1) Cons nt run Inr u by simp
        next
          case r2: (Inr w)
          obtain vs' rest0 where w: "w = (vs', rest0)" by (cases w) auto
          have 1: "\<not> results_closed pint pfloat rest0"
            using less.prems(1) Cons nt run Inr u r2 w by simp
          have 2: "results_loop pint pfloat rest0
                     (assign_run s (entity_count_of s en) vs' results) = Inr (res, rest')"
            using less.prems(2) Cons nt run Inr u r2 w by simp
          have len: "length rest0 \<le> length rest"
            using read_continuation_length[OF r2[unfolded w]] .
          have rc: "read_continuation pfloat (entity_count_of s en) vs (rest @ t # ys) =
                    Inr (vs', rest0 @ t # ys)"
          proof (cases "rest0 = []")
            case True
            then show ?thesis using read_continuation_open[OF r2[unfolded w True] tmn, of ys] by simp
          next
            case False
            then show ?thesis using read_continuation_stops_inside[OF r2[unfolded w] False] by simp
          qed
          from IH[OF len 1 2] show ?thesis using Cons nt run Inr u rc by simp
        qed
      qed
    next
      case skip
      have 1: "\<not> results_closed pint pfloat rest" using less.prems(1) Cons nt skip by simp
      have 2: "results_loop pint pfloat rest results = Inr (res, rest')"
        using less.prems(2) Cons nt skip by simp
      from IH[OF le_refl 1 2] show ?thesis using Cons nt skip by simp
    qed
  qed
qed

lemma vectors_loop_skip_line:
  assumes "is_terminator (parse_csv_line_fast t)" "vector_header pint (t # ys) = Inl ValueError"
  shows "vectors_loop pint pfloat (t # ys) acc = vectors_loop pint pfloat ys acc"
proof -
  have "2 \<le> length (parse_csv_line_fast t)" using assms(1) by (simp add: is_terminator_def)
  then show ?thesis using assms(2) by simp
qed

lemma vectors_loop_append:
  "vectors_cut_rejoins pint pfloat xs ys \<Longrightarrow>
   vectors_loop pint pfloat (xs @ ys) acc =
     bind_err (vectors_loop pint pfloat xs acc) (vectors_loop pint pfloat ys)"
proof (cases "ys = []")
  case True
  then show ?thesis by (cases "vectors_loop pint pfloat xs acc") simp_all
next
  case ne: False
  assume "vectors_cut_rejoins pint pfloat xs ys"
  then show ?thesis
  proof (induction "length xs" arbitrary: xs acc rule: less_induct)
    case less
    show ?case
    proof (cases xs)
      case Nil
      then show ?thesis by simp
    next
      case (Cons l rest)
      have IH: "vectors_loop pint pfloat (xs' @ ys) acc' =
          bind_err (vectors_loop pint pfloat xs' acc') (vectors_loop pint pfloat ys)"
        if "length xs' \<le> length rest" "vectors_cut_rejoins pint pfloat xs' ys" for xs' acc'
        using less.hyps[of xs' acc'] that Cons by simp
      show ?thesis
      proof (cases "2 \<le> length (parse_csv_line_fast l)")
        case False
        then show ?thesis using Cons less.prems IH[of rest acc] by simp
      next
        case True
        show ?thesis
        proof (cases "vector_header pint (l # rest)")
          case (Inl e)
          have "vector_header pint (l # rest @ ys) = Inl e"
            using Inl by (rule vector_header_error)
          then show ?thesis using Cons True Inl less.prems IH[of rest acc]
            by (cases e) simp_all
        next
          case (Inr h)
          obtain sid vid t et where h: "h = (sid, vid, t, et)" by (cases h) auto
          have w: "6 \<le> length rest"
            using less.prems Cons True Inr ne by simp
          have hd: "vector_header pint (l # rest @ ys) = Inr (sid, vid, t, et)"
            using Inr h w by (simp add: vector_header_local)
          have dr: "drop 6 (rest @ ys) = drop 6 rest @ ys" using w by simp
          show ?thesis
          proof (cases "results_loop pint pfloat (drop 6 rest) Map.empty")
            case f: (Inl fl)
            obtain e pos where fl: "fl = (e, pos)" by (cases fl) auto
            have pos: "pos \<noteq> []" "length pos \<le> length (drop 6 rest)"
              using results_loop_length[where pint = pint and pfloat = pfloat
                  and ls = "drop 6 rest" and results = Map.empty] f fl by simp_all
            have cl: "results_closed pint pfloat (drop 6 rest)"
            proof (rule ccontr)
              assume "\<not> results_closed pint pfloat (drop 6 rest)"
              then show False
                using results_loop_not_closed[of pint pfloat "drop 6 rest" Map.empty] f by simp
            qed
            note rl = results_loop_closed_append[OF cl, of ys Map.empty]
            have ext: "results_loop pint pfloat (drop 6 rest @ ys) Map.empty = Inl (e, pos @ ys)"
              using rl f fl by simp
            show ?thesis
            proof (cases e)
              case OverflowError
              then show ?thesis using Cons True Inr h hd dr f fl ext by simp
            next
              case ValueError
              have wv: "vectors_cut_rejoins pint pfloat (tl pos) ys"
                using less.prems Cons True Inr f fl ValueError ne w by simp
              have len: "length (tl pos) \<le> length rest" using pos by simp
              have "tl (pos @ ys) = tl pos @ ys" using pos(1) by simp
              then show ?thesis
                using Cons True Inr h hd dr f fl ext ValueError IH[OF len wv, of acc] by simp
            qed
          next
            case r: (Inr u)
            obtain res rest' where u: "u = (res, rest')" by (cases u) auto
            let ?v = "\<lparr>vec_set_id = sid, vec_vec_id = vid, vec_title = t,
                          vec_ent_type = et, vec_results = res\<rparr>"
            show ?thesis
            proof (cases "results_closed pint pfloat (drop 6 rest)")
              case cl: True
              have len: "length rest' \<le> length rest"
                using results_loop_length[where pint = pint and pfloat = pfloat
                    and ls = "drop 6 rest" and results = Map.empty] r u by simp
              have wv: "vectors_cut_rejoins pint pfloat rest' ys"
                using less.prems Cons True Inr r u cl ne w by simp
              have ext: "results_loop pint pfloat (drop 6 rest @ ys) Map.empty = Inr (res, rest' @ ys)"
                using results_loop_closed_append[OF cl, of ys Map.empty] r u by simp
              show ?thesis
                using Cons True Inr h hd dr r u ext IH[OF len wv, of "acc @ [?v]"] by simp
            next
              case op: False
              have tm: "is_terminator (parse_csv_line_fast (hd ys))" "vector_header pint ys = Inl ValueError"
                using less.prems Cons True Inr r u op ne w by simp_all
              obtain y ys' where ys: "ys = y # ys'" using ne by (cases ys) auto
              have o: "rest' = []"
                "results_loop pint pfloat (drop 6 rest @ y # ys') Map.empty = Inr (res, ys')"
                using results_loop_open[OF op r[unfolded u], of y ys'] tm(1) ys by simp_all
              have sk: "vectors_loop pint pfloat (y # ys') a = vectors_loop pint pfloat ys' a" for a
                using tm ys by (intro vectors_loop_skip_line) simp_all
              show ?thesis
                using Cons True Inr h hd dr r u o ys sk[of "acc @ [?v]"] by simp
            qed
          qed
        qed
      qed
    qed
  qed
qed

lemma nodes_blocks_append:
  "nodes_blocks pint pfloat (bs @ cs) m =
     bind_err (nodes_blocks pint pfloat bs m) (nodes_blocks pint pfloat cs)"
proof (induction bs arbitrary: m)
  case Nil
  show ?case by simp
next
  case (Cons b bs)
  show ?case by (cases "nodes_lines pint pfloat (lines b) m") (simp_all add: Cons)
qed

lemma materials_blocks_append:
  "materials_blocks pint (bs @ cs) m =
     bind_err (materials_blocks pint bs m) (materials_blocks pint cs)"
proof (induction bs arbitrary: m)
  case Nil
  show ?case by simp
next
  case (Cons b bs)
  show ?case by (cases "materials_loop pint (lines b) m") (simp_all add: Cons)
qed

lemma properties_blocks_append:
  "properties_blocks pint (bs @ cs) m =
     bind_err (properties_blocks pint bs m) (properties_blocks pint cs)"
proof (induction bs arbitrary: m)
  case Nil
  show ?case by simp
next
  case (Cons b bs)
  show ?case by (cases "properties_loop pint (lines b) m") (simp_all add: Cons)
qed

lemma elements_blocks_append:
  "elements_blocks pint (bs @ cs) acc =
     bind_err (elements_blocks pint bs acc) (elements_blocks pint cs)"
proof (induction bs arbitrary: acc)
  case Nil
  show ?case by simp
next
  case (Cons b bs)
  show ?case by (cases "elements_loop pint (lines b) acc") (simp_all add: Cons)
qed

lemma output_sets_blocks_append:
  "output_sets_blocks pint pfloat (bs @ cs) m =
     bind_err (output_sets_blocks pint pfloat bs m) (output_sets_blocks pint pfloat cs)"
proof (induction bs arbitrary: m)
  case Nil
  show ?case by simp
next
  case (Cons b bs)
  show ?case by (cases "output_sets_loop pint pfloat (lines b) m") (simp_all add: Cons)
qed

lemma vectors_blocks_append:
  "vectors_blocks pint pfloat (bs @ cs) acc =
     bind_err (vectors_blocks pint pfloat bs acc) (vectors_blocks pint pfloat cs)"
proof (induction bs arbitrary: acc)
  case Nil
  show ?case by simp
next
  case (Cons b bs)
  show ?case by (cases "vectors_loop pint pfloat (lines b) acc") (simp_all add: Cons)
qed

lemma bind_err_Inr [simp]: "bind_err m Inr = m"
  by (cases m) simp_all

lemma bind_err_assoc:
  "bind_err (bind_err m f) g = bind_err m (\<lambda>x. bind_err (f x) g)"
  by (cases m) simp_all

lemma split_in_context:
  assumes app: "\<And>bs cs a. G (bs @ cs) a = bind_err (G bs a) (G cs)"
    and pair: "\<And>a. G [b1, b2] a = G [b12] a"
  shows "G (P @ [b1, b2] @ Q) a = G (P @ [b12] @ Q) a"
proof -
  have 1: "G ([b1, b2] @ Q) = (\<lambda>x. bind_err (G [b1, b2] x) (G Q))"
    by (rule ext) (rule app)
  have 2: "G ([b12] @ Q) = (\<lambda>x. bind_err (G [b12] x) (G Q))"
    by (rule ext) (rule app)
  have "G (P @ [b1, b2] @ Q) a = bind_err (G P a) (G ([b1, b2] @ Q))" by (rule app)
  also have "\<dots> = bind_err (G P a) (G ([b12] @ Q))" unfolding 1 2 pair ..
  also have "\<dots> = G (P @ [b12] @ Q) a" by (rule app[symmetric])
  finally show ?thesis .
qed

lemma wf_split_blocks:
  assumes "list_all (wf_file_block pint) (front @ [b\<lparr>fb_lines := xs @ ys\<rparr>] @ back)"
  shows "list_all (wf_file_block pint) (front @ [b\<lparr>fb_lines := xs\<rparr>, b\<lparr>fb_lines := ys\<rparr>] @ back)"
  using assms by (auto simp: wf_file_block_def)

lemma split_file_extract:
  assumes wf: "list_all (wf_file_block pint) (front @ [b\<lparr>fb_lines := xs @ ys\<rparr>] @ back)"
    and app: "\<And>bs cs a. G (bs @ cs) a = bind_err (G bs a) (G cs)"
    and pair: "\<And>a. fb_id b = k \<Longrightarrow>
           G [\<lparr>block_id = k, lines = xs\<rparr>, \<lparr>block_id = k, lines = ys\<rparr>] a =
           G [\<lparr>block_id = k, lines = xs @ ys\<rparr>] a"
  shows "bind_err (parse pint (split_file front b xs ys back)) (\<lambda>blocks. G (get_blocks blocks k) init) =
         bind_err (parse pint (unsplit_file front b xs ys back)) (\<lambda>blocks. G (get_blocks blocks k) init)"
proof -
  let ?mk = "\<lambda>b. \<lparr>block_id = k, lines = fb_lines b\<rparr>"
  let ?f = "\<lambda>bs. map ?mk (filter (\<lambda>b. fb_id b = k) bs)"
  have 1: "parse pint (unsplit_file front b xs ys back) =
           Inr (scanned_blocks (front @ [b\<lparr>fb_lines := xs @ ys\<rparr>] @ back))"
    unfolding unsplit_file_def by (rule parse_file[OF wf])
  have 2: "parse pint (split_file front b xs ys back) =
           Inr (scanned_blocks (front @ [b\<lparr>fb_lines := xs\<rparr>, b\<lparr>fb_lines := ys\<rparr>] @ back))"
    unfolding split_file_def by (rule parse_file[OF wf_split_blocks[OF wf]])
  have "G (?f (front @ [b\<lparr>fb_lines := xs\<rparr>, b\<lparr>fb_lines := ys\<rparr>] @ back)) init =
        G (?f (front @ [b\<lparr>fb_lines := xs @ ys\<rparr>] @ back)) init"
  proof (cases "fb_id b = k")
    case False
    then show ?thesis by simp
  next
    case True
    have "G (?f front @ [\<lparr>block_id = k, lines = xs\<rparr>, \<lparr>block_id = k, lines = ys\<rparr>] @ ?f back) init =
          G (?f front @ [\<lparr>block_id = k, lines = xs @ ys\<rparr>] @ ?f back) init"
      by (rule split_in_context[where G = G, OF app pair[OF True]])
    then show ?thesis using True by simp
  qed
  then show ?thesis using 1 2 by (simp add: get_blocks_scanned)
qed

lemma bind_err_done:
  assumes "\<And>x. f x = Inr x"
  shows "bind_err m f = m"
  using assms by (cases m) simp_all

lemma blocks_single:
  "nodes_blocks pint pfloat [b] = nodes_lines pint pfloat (lines b)"
  "materials_blocks pint [b] = materials_loop pint (lines b)"
  "properties_blocks pint [b] = properties_loop pint (lines b)"
  "elements_blocks pint [b] = elements_loop pint (lines b)"
  "output_sets_blocks pint pfloat' [b] = output_sets_loop pint pfloat' (lines b)"
  "vectors_blocks pint pfloat [b] = vectors_loop pint pfloat (lines b)"
  by (rule ext, simp add: bind_err_done)+

section \<open>Claim C2: a block cut in two\<close>

text \<open>
  Claim C2, as amended. Take a file made of well-formed blocks and cut one of its blocks
  after the lines \<open>xs\<close> into two consecutive blocks with the same ID line. The nodes
  (block 403) and the materials (block 601) extracted are the same wherever the cut is:
  their records are single lines. The elements (404), the properties (402), the output
  sets (450) and the output vectors (1051) are the same when the scan of the second block
  rejoins the scan of the uncut block: every record that the scan of \<open>xs\<close> accepts has
  its whole stride before the cut, or is the last one, is read the same with and without
  the lines after the cut, and is followed after the cut by lines of its stride that the
  scan passes over; every vector that the scan accepts has its seven header lines before
  the cut and a result stream that is closed before the cut or ends at the cut with the
  terminator as the next line. Each extractor restarts its scan at the first line of
  every block and never reads past the last line of a block.
\<close>

theorem split_block_between_records:
  fixes pfloat :: "('f::zero) float_parser"
  assumes "list_all (wf_file_block pint) (front @ [b\<lparr>fb_lines := xs @ ys\<rparr>] @ back)"
  shows
    "bind_err (parse pint (split_file front b xs ys back)) (get_nodes pint pfloat) =
       bind_err (parse pint (unsplit_file front b xs ys back)) (get_nodes pint pfloat) \<and>
     bind_err (parse pint (split_file front b xs ys back)) (get_materials pint) =
       bind_err (parse pint (unsplit_file front b xs ys back)) (get_materials pint) \<and>
     ((fb_id b = 404 \<longrightarrow> elements_cut_rejoins pint xs ys) \<longrightarrow>
        bind_err (parse pint (split_file front b xs ys back)) (get_elements pint) =
          bind_err (parse pint (unsplit_file front b xs ys back)) (get_elements pint)) \<and>
     ((fb_id b = 402 \<longrightarrow> properties_cut_rejoins pint xs ys) \<longrightarrow>
        bind_err (parse pint (split_file front b xs ys back)) (get_properties pint) =
          bind_err (parse pint (unsplit_file front b xs ys back)) (get_properties pint)) \<and>
     ((fb_id b = 450 \<longrightarrow> output_sets_cut_rejoins pint pfloat xs ys) \<longrightarrow>
        bind_err (parse pint (split_file front b xs ys back)) (get_output_sets pint pfloat) =
          bind_err (parse pint (unsplit_file front b xs ys back)) (get_output_sets pint pfloat)) \<and>
     ((fb_id b = 1051 \<longrightarrow> vectors_cut_rejoins pint pfloat xs ys) \<longrightarrow>
        bind_err (parse pint (split_file front b xs ys back)) (get_output_vectors pint pfloat) =
          bind_err (parse pint (unsplit_file front b xs ys back)) (get_output_vectors pint pfloat))"
proof (intro conjI impI)
  have pair: "nodes_blocks pint pfloat [\<lparr>block_id = 403, lines = xs\<rparr>, \<lparr>block_id = 403, lines = ys\<rparr>] a =
              nodes_blocks pint pfloat [\<lparr>block_id = 403, lines = xs @ ys\<rparr>] a" for a
    by (simp add: nodes_lines_append blocks_single)
  show "bind_err (parse pint (split_file front b xs ys back)) (get_nodes pint pfloat) =
       bind_err (parse pint (unsplit_file front b xs ys back)) (get_nodes pint pfloat)"
    using split_file_extract[where G = "nodes_blocks pint pfloat" and k = 403 and init = Map.empty,
        OF assms nodes_blocks_append pair]
    by (simp add: get_nodes_def[abs_def])
  have pair: "materials_blocks pint [\<lparr>block_id = 601, lines = xs\<rparr>, \<lparr>block_id = 601, lines = ys\<rparr>] a =
              materials_blocks pint [\<lparr>block_id = 601, lines = xs @ ys\<rparr>] a" for a
    by (simp add: materials_loop_append blocks_single)
  show "bind_err (parse pint (split_file front b xs ys back)) (get_materials pint) =
       bind_err (parse pint (unsplit_file front b xs ys back)) (get_materials pint)"
    using split_file_extract[where G = "materials_blocks pint" and k = 601 and init = Map.empty,
        OF assms materials_blocks_append pair]
    by (simp add: get_materials_def[abs_def])
next
  assume c: "fb_id b = 404 \<longrightarrow> elements_cut_rejoins pint xs ys"
  have pair: "elements_blocks pint [\<lparr>block_id = 404, lines = xs\<rparr>, \<lparr>block_id = 404, lines = ys\<rparr>] a =
              elements_blocks pint [\<lparr>block_id = 404, lines = xs @ ys\<rparr>] a"
    if "fb_id b = 404" for a
    using c that by (simp add: elements_loop_append blocks_single)
  show "bind_err (parse pint (split_file front b xs ys back)) (get_elements pint) =
          bind_err (parse pint (unsplit_file front b xs ys back)) (get_elements pint)"
    using split_file_extract[where G = "elements_blocks pint" and k = 404 and init = "[]",
        OF assms elements_blocks_append pair]
    by (simp add: get_elements_def[abs_def])
next
  assume c: "fb_id b = 402 \<longrightarrow> properties_cut_rejoins pint xs ys"
  have pair: "properties_blocks pint [\<lparr>block_id = 402, lines = xs\<rparr>, \<lparr>block_id = 402, lines = ys\<rparr>] a =
              properties_blocks pint [\<lparr>block_id = 402, lines = xs @ ys\<rparr>] a"
    if "fb_id b = 402" for a
    using c that by (simp add: properties_loop_append blocks_single)
  show "bind_err (parse pint (split_file front b xs ys back)) (get_properties pint) =
          bind_err (parse pint (unsplit_file front b xs ys back)) (get_properties pint)"
    using split_file_extract[where G = "properties_blocks pint" and k = 402 and init = Map.empty,
        OF assms properties_blocks_append pair]
    by (simp add: get_properties_def[abs_def])
next
  assume c: "fb_id b = 450 \<longrightarrow> output_sets_cut_rejoins pint pfloat xs ys"
  have pair: "output_sets_blocks pint pfloat [\<lparr>block_id = 450, lines = xs\<rparr>, \<lparr>block_id = 450, lines = ys\<rparr>] a =
              output_sets_blocks pint pfloat [\<lparr>block_id = 450, lines = xs @ ys\<rparr>] a"
    if "fb_id b = 450" for a
    using c that by (simp add: output_sets_loop_append blocks_single)
  show "bind_err (parse pint (split_file front b xs ys back)) (get_output_sets pint pfloat) =
          bind_err (parse pint (unsplit_file front b xs ys back)) (get_output_sets pint pfloat)"
    using split_file_extract[where G = "output_sets_blocks pint pfloat" and k = 450
        and init = Map.empty, OF assms output_sets_blocks_append pair]
    by (simp add: get_output_sets_def[abs_def])
next
  assume c: "fb_id b = 1051 \<longrightarrow> vectors_cut_rejoins pint pfloat xs ys"
  have pair: "vectors_blocks pint pfloat [\<lparr>block_id = 1051, lines = xs\<rparr>, \<lparr>block_id = 1051, lines = ys\<rparr>] a =
              vectors_blocks pint pfloat [\<lparr>block_id = 1051, lines = xs @ ys\<rparr>] a"
    if "fb_id b = 1051" for a
    using c that by (simp add: vectors_loop_append blocks_single)
  show "bind_err (parse pint (split_file front b xs ys back)) (get_output_vectors pint pfloat) =
          bind_err (parse pint (unsplit_file front b xs ys back)) (get_output_vectors pint pfloat)"
    using split_file_extract[where G = "vectors_blocks pint pfloat" and k = 1051 and init = "[]",
        OF assms vectors_blocks_append pair]
    by (simp add: get_output_vectors_def[abs_def])
qed

text \<open>
  Blocks cut between two records, a property block cut before the last line of a record
  (a line the scan passes over), and a vector block cut before the terminator.
\<close>

theorem split_block_between_records_witness:
  "list_all (wf_file_block dec_int)
     ([header_block] @ [nodes_block_a\<lparr>fb_lines := take 1 (fb_lines nodes_block_a) @
         drop 1 (fb_lines nodes_block_a)\<rparr>] @ [nodes_block_b]) \<and>
   bind_err (parse dec_int (split_file [header_block] nodes_block_a
       (take 1 (fb_lines nodes_block_a)) (drop 1 (fb_lines nodes_block_a)) [nodes_block_b]))
       (get_nodes dec_int dec_float) =
     bind_err (parse dec_int (unsplit_file [header_block] nodes_block_a
       (take 1 (fb_lines nodes_block_a)) (drop 1 (fb_lines nodes_block_a)) [nodes_block_b]))
       (get_nodes dec_int dec_float) \<and>
   list_all (wf_file_block dec_int)
     ([] @ [\<lparr>fb_id_line = ''   601'', fb_id = 601, fb_lines = []\<rparr>
              \<lparr>fb_lines := [''1,''] @ [''2,'']\<rparr>] @ []) \<and>
   bind_err (parse dec_int (split_file []
       \<lparr>fb_id_line = ''   601'', fb_id = 601, fb_lines = []\<rparr> [''1,''] [''2,''] []))
       (get_materials dec_int) =
     bind_err (parse dec_int (unsplit_file []
       \<lparr>fb_id_line = ''   601'', fb_id = 601, fb_lines = []\<rparr> [''1,''] [''2,''] []))
       (get_materials dec_int) \<and>
   list_all (wf_file_block dec_int)
     ([] @ [elements_block []\<lparr>fb_lines := element_lines_a @ element_lines_b\<rparr>] @ []) \<and>
   elements_cut_rejoins dec_int element_lines_a element_lines_b \<and>
   bind_err (parse dec_int (split_file [] (elements_block []) element_lines_a element_lines_b []))
       (get_elements dec_int) =
     bind_err (parse dec_int (unsplit_file [] (elements_block []) element_lines_a element_lines_b []))
       (get_elements dec_int) \<and>
   list_all (wf_file_block dec_int)
     ([] @ [properties_block []\<lparr>fb_lines := property_lines_a @ property_lines_b\<rparr>] @ []) \<and>
   properties_cut_rejoins dec_int property_lines_a property_lines_b \<and>
   bind_err (parse dec_int (split_file [] (properties_block []) property_lines_a property_lines_b []))
       (get_properties dec_int) =
     bind_err (parse dec_int (unsplit_file [] (properties_block []) property_lines_a property_lines_b []))
       (get_properties dec_int) \<and>
   list_all (wf_file_block dec_int)
     ([] @ [output_sets_block []\<lparr>fb_lines := output_set_lines_a @ output_set_lines_b\<rparr>] @ []) \<and>
   output_sets_cut_rejoins dec_int dec_float output_set_lines_a output_set_lines_b \<and>
   bind_err (parse dec_int (split_file [] (output_sets_block []) output_set_lines_a output_set_lines_b []))
       (get_output_sets dec_int dec_float) =
     bind_err (parse dec_int (unsplit_file [] (output_sets_block []) output_set_lines_a output_set_lines_b []))
       (get_output_sets dec_int dec_float) \<and>
   list_all (wf_file_block dec_int)
     ([] @ [vectors_block []\<lparr>fb_lines := vector_lines_a @ vector_lines_b\<rparr>] @ []) \<and>
   vectors_cut_rejoins dec_int dec_float vector_lines_a vector_lines_b \<and>
   bind_err (parse dec_int (split_file [] (vectors_block []) vector_lines_a vector_lines_b []))
       (get_output_vectors dec_int dec_float) =
     bind_err (parse dec_int (unsplit_file [] (vectors_block []) vector_lines_a vector_lines_b []))
       (get_output_vectors dec_int dec_float) \<and>
   list_all (wf_file_block dec_int)
     ([] @ [properties_block []\<lparr>fb_lines := take 6 property_lines_a @
              (drop 6 property_lines_a @ property_lines_b)\<rparr>] @ []) \<and>
   properties_cut_rejoins dec_int (take 6 property_lines_a)
     (drop 6 property_lines_a @ property_lines_b) \<and>
   bind_err (parse dec_int (split_file [] (properties_block []) (take 6 property_lines_a)
       (drop 6 property_lines_a @ property_lines_b) [])) (get_properties dec_int) =
     bind_err (parse dec_int (unsplit_file [] (properties_block []) (take 6 property_lines_a)
       (drop 6 property_lines_a @ property_lines_b) [])) (get_properties dec_int) \<and>
   list_all (wf_file_block dec_int)
     ([] @ [vectors_block []\<lparr>fb_lines := butlast vector_lines_a @
              (''-1,0.,'' # vector_lines_b)\<rparr>] @ []) \<and>
   vectors_cut_rejoins dec_int dec_float (butlast vector_lines_a) (''-1,0.,'' # vector_lines_b) \<and>
   bind_err (parse dec_int (split_file [] (vectors_block []) (butlast vector_lines_a)
       (''-1,0.,'' # vector_lines_b) [])) (get_output_vectors dec_int dec_float) =
     bind_err (parse dec_int (unsplit_file [] (vectors_block []) (butlast vector_lines_a)
       (''-1,0.,'' # vector_lines_b) [])) (get_output_vectors dec_int dec_float)"
proof -
  have n: "list_all (wf_file_block dec_int)
     ([header_block] @ [nodes_block_a\<lparr>fb_lines := take 1 (fb_lines nodes_block_a) @
         drop 1 (fb_lines nodes_block_a)\<rparr>] @ [nodes_block_b])"
    by code_simp
  have m: "list_all (wf_file_block dec_int)
     ([] @ [\<lparr>fb_id_line = ''   601'', fb_id = 601, fb_lines = []\<rparr>
              \<lparr>fb_lines := [''1,''] @ [''2,'']\<rparr>] @ [])"
    by code_simp
  have e: "list_all (wf_file_block dec_int)
     ([] @ [elements_block []\<lparr>fb_lines := element_lines_a @ element_lines_b\<rparr>] @ [])"
    by code_simp
  have p: "list_all (wf_file_block dec_int)
     ([] @ [properties_block []\<lparr>fb_lines := property_lines_a @ property_lines_b\<rparr>] @ [])"
    by code_simp
  have s: "list_all (wf_file_block dec_int)
     ([] @ [output_sets_block []\<lparr>fb_lines := output_set_lines_a @ output_set_lines_b\<rparr>] @ [])"
    by code_simp
  have v: "list_all (wf_file_block dec_int)
     ([] @ [vectors_block []\<lparr>fb_lines := vector_lines_a @ vector_lines_b\<rparr>] @ [])"
    by code_simp
  have we: "elements_cut_rejoins dec_int element_lines_a element_lines_b" by code_simp
  have wp: "properties_cut_rejoins dec_int property_lines_a property_lines_b" by code_simp
  have ws: "output_sets_cut_rejoins dec_int dec_float output_set_lines_a output_set_lines_b" by code_simp
  have wv: "vectors_cut_rejoins dec_int dec_float vector_lines_a vector_lines_b" by code_simp
  note tn = split_block_between_records[where pfloat = dec_float, OF n]
  note tm = split_block_between_records[where pfloat = dec_float, OF m]
  note te = split_block_between_records[where pfloat = dec_float, OF e]
  note tp = split_block_between_records[where pfloat = dec_float, OF p]
  note ts = split_block_between_records[where pfloat = dec_float, OF s]
  note tv = split_block_between_records[where pfloat = dec_float, OF v]
  from tn have 1: "bind_err (parse dec_int (split_file [header_block] nodes_block_a
       (take 1 (fb_lines nodes_block_a)) (drop 1 (fb_lines nodes_block_a)) [nodes_block_b]))
       (get_nodes dec_int dec_float) =
     bind_err (parse dec_int (unsplit_file [header_block] nodes_block_a
       (take 1 (fb_lines nodes_block_a)) (drop 1 (fb_lines nodes_block_a)) [nodes_block_b]))
       (get_nodes dec_int dec_float)"
    by (rule conjunct1)
  from tm have 2: "bind_err (parse dec_int (split_file []
       \<lparr>fb_id_line = ''   601'', fb_id = 601, fb_lines = []\<rparr> [''1,''] [''2,''] []))
       (get_materials dec_int) =
     bind_err (parse dec_int (unsplit_file []
       \<lparr>fb_id_line = ''   601'', fb_id = 601, fb_lines = []\<rparr> [''1,''] [''2,''] []))
       (get_materials dec_int)"
    by blast
  from te we have 3: "bind_err (parse dec_int (split_file [] (elements_block []) element_lines_a element_lines_b []))
       (get_elements dec_int) =
     bind_err (parse dec_int (unsplit_file [] (elements_block []) element_lines_a element_lines_b []))
       (get_elements dec_int)"
    by blast
  from tp wp have 4: "bind_err (parse dec_int (split_file [] (properties_block []) property_lines_a property_lines_b []))
       (get_properties dec_int) =
     bind_err (parse dec_int (unsplit_file [] (properties_block []) property_lines_a property_lines_b []))
       (get_properties dec_int)"
    by blast
  from ts ws have 5: "bind_err (parse dec_int (split_file [] (output_sets_block []) output_set_lines_a output_set_lines_b []))
       (get_output_sets dec_int dec_float) =
     bind_err (parse dec_int (unsplit_file [] (output_sets_block []) output_set_lines_a output_set_lines_b []))
       (get_output_sets dec_int dec_float)"
    by blast
  from tv wv have 6: "bind_err (parse dec_int (split_file [] (vectors_block []) vector_lines_a vector_lines_b []))
       (get_output_vectors dec_int dec_float) =
     bind_err (parse dec_int (unsplit_file [] (vectors_block []) vector_lines_a vector_lines_b []))
       (get_output_vectors dec_int dec_float)"
    by blast
  have p2: "list_all (wf_file_block dec_int)
     ([] @ [properties_block []\<lparr>fb_lines := take 6 property_lines_a @
              (drop 6 property_lines_a @ property_lines_b)\<rparr>] @ [])"
    by code_simp
  have wp2: "properties_cut_rejoins dec_int (take 6 property_lines_a)
     (drop 6 property_lines_a @ property_lines_b)" by code_simp
  have v2: "list_all (wf_file_block dec_int)
     ([] @ [vectors_block []\<lparr>fb_lines := butlast vector_lines_a @
              (''-1,0.,'' # vector_lines_b)\<rparr>] @ [])"
    by code_simp
  have wv2: "vectors_cut_rejoins dec_int dec_float (butlast vector_lines_a)
     (''-1,0.,'' # vector_lines_b)" by code_simp
  note tp2 = split_block_between_records[where pfloat = dec_float, OF p2]
  note tv2 = split_block_between_records[where pfloat = dec_float, OF v2]
  from tp2 wp2 have 7: "bind_err (parse dec_int (split_file [] (properties_block [])
       (take 6 property_lines_a) (drop 6 property_lines_a @ property_lines_b) []))
       (get_properties dec_int) =
     bind_err (parse dec_int (unsplit_file [] (properties_block []) (take 6 property_lines_a)
       (drop 6 property_lines_a @ property_lines_b) [])) (get_properties dec_int)"
    by blast
  from tv2 wv2 have 8: "bind_err (parse dec_int (split_file [] (vectors_block [])
       (butlast vector_lines_a) (''-1,0.,'' # vector_lines_b) []))
       (get_output_vectors dec_int dec_float) =
     bind_err (parse dec_int (unsplit_file [] (vectors_block []) (butlast vector_lines_a)
       (''-1,0.,'' # vector_lines_b) [])) (get_output_vectors dec_int dec_float)"
    by blast
  show ?thesis
    by (intro conjI) (fact n 1 m 2 e we 3 p wp 4 s ws 5 v wv 6 p2 wp2 7 v2 wv2 8)+
qed

text \<open>
  Claim C2 as stated fails when the cut falls inside the stride of an accepted record. An
  element block cut after the first line of an element gives that element without nodes
  (its node line is past the end of the first block) and one more element, read from the
  node line at the start of the second block. A property block cut after the first line
  of a property gives the property an empty title and adds a property 0, which no record
  of the file declares, so the change is not one of last-wins either.
\<close>

theorem split_inside_record_counterexample:
  "list_all (wf_file_block dec_int) [elements_block element_lines_a] \<and>
   bind_err (parse dec_int (unsplit_file [] (elements_block [])
       (take 1 element_lines_a) (drop 1 element_lines_a) [])) (get_elements dec_int) =
     Inr [\<lparr>elem_id = 10, elem_prop_id = 7, elem_topology = 2, elem_nodes = [1, 2, 3]\<rparr>] \<and>
   bind_err (parse dec_int (split_file [] (elements_block [])
       (take 1 element_lines_a) (drop 1 element_lines_a) [])) (get_elements dec_int) =
     Inr [\<lparr>elem_id = 10, elem_prop_id = 7, elem_topology = 2, elem_nodes = []\<rparr>,
          \<lparr>elem_id = 0, elem_prop_id = 0, elem_topology = 0, elem_nodes = []\<rparr>] \<and>
   bind_err (parse dec_int (split_file [] (elements_block [])
       (take 1 element_lines_a) (drop 1 element_lines_a) [])) (get_elements dec_int) \<noteq>
     bind_err (parse dec_int (unsplit_file [] (elements_block [])
       (take 1 element_lines_a) (drop 1 element_lines_a) [])) (get_elements dec_int) \<and>
   list_all (wf_file_block dec_int) [properties_block property_lines_a] \<and>
   map_sum id (\<lambda>m. (m 7, m 0)) (bind_err (parse dec_int (unsplit_file [] (properties_block [])
       (take 1 property_lines_a) (drop 1 property_lines_a) [])) (get_properties dec_int)) =
     Inr (Some \<lparr>prop_material_id = 1, prop_title = ''Solid''\<rparr>, None) \<and>
   map_sum id (\<lambda>m. (m 7, m 0)) (bind_err (parse dec_int (split_file [] (properties_block [])
       (take 1 property_lines_a) (drop 1 property_lines_a) [])) (get_properties dec_int)) =
     Inr (Some \<lparr>prop_material_id = 1, prop_title = []\<rparr>,
          Some \<lparr>prop_material_id = 0, prop_title = ''8''\<rparr>)"
proof -
  have 1: "list_all (wf_file_block dec_int) [elements_block element_lines_a]" by code_simp
  have 2: "bind_err (parse dec_int (unsplit_file [] (elements_block [])
       (take 1 element_lines_a) (drop 1 element_lines_a) [])) (get_elements dec_int) =
     Inr [\<lparr>elem_id = 10, elem_prop_id = 7, elem_topology = 2, elem_nodes = [1, 2, 3]\<rparr>]"
    by code_simp
  have 3: "bind_err (parse dec_int (split_file [] (elements_block [])
       (take 1 element_lines_a) (drop 1 element_lines_a) [])) (get_elements dec_int) =
     Inr [\<lparr>elem_id = 10, elem_prop_id = 7, elem_topology = 2, elem_nodes = []\<rparr>,
          \<lparr>elem_id = 0, elem_prop_id = 0, elem_topology = 0, elem_nodes = []\<rparr>]"
    by code_simp
  have 4: "list_all (wf_file_block dec_int) [properties_block property_lines_a]" by code_simp
  have 5: "map_sum id (\<lambda>m. (m 7, m 0)) (bind_err (parse dec_int (unsplit_file [] (properties_block [])
       (take 1 property_lines_a) (drop 1 property_lines_a) [])) (get_properties dec_int)) =
     Inr (Some \<lparr>prop_material_id = 1, prop_title = ''Solid''\<rparr>, None)"
    by code_simp
  have 6: "map_sum id (\<lambda>m. (m 7, m 0)) (bind_err (parse dec_int (split_file [] (properties_block [])
       (take 1 property_lines_a) (drop 1 property_lines_a) [])) (get_properties dec_int)) =
     Inr (Some \<lparr>prop_material_id = 1, prop_title = []\<rparr>,
          Some \<lparr>prop_material_id = 0, prop_title = ''8''\<rparr>)"
    by code_simp
  show ?thesis unfolding 2 3 5 6 using 1 4 by simp
qed

section \<open>Properties: the last record of an ID wins\<close>

lemma property_assignments_loop_skip:
  "list_all (property_line_skipped pint) c \<Longrightarrow>
   property_assignments_loop pint (c @ rest) = property_assignments_loop pint rest"
proof (induction c)
  case Nil
  show ?case by simp
next
  case (Cons l c)
  then have s: "property_line_skipped pint l" and c: "list_all (property_line_skipped pint) c"
    by simp_all
  show ?case
  proof (cases "3 \<le> length (parse_csv_line_fast l)")
    case False
    then show ?thesis using Cons.IH[OF c] by simp
  next
    case True
    then have "property_record pint [l] = Inl ValueError"
      using s by (simp add: property_line_skipped_def)
    then have "property_record pint (l # c @ rest) = Inl ValueError"
      by (rule property_record_error)
    then show ?thesis using True Cons.IH[OF c] by simp
  qed
qed

lemma declared_property_skipped:
  assumes "skipped_property_record pint (l # c)"
  shows "declared_property pint (l # c) = None"
proof (cases "3 \<le> length (parse_csv_line_fast l)")
  case False
  then show ?thesis by (simp add: declared_property_def)
next
  case True
  then have "property_record pint [l] = Inl ValueError"
    using assms by (simp add: skipped_property_record_def property_line_skipped_def)
  then have "property_record pint (l # c) = Inl ValueError" by (rule property_record_error)
  then show ?thesis by (simp add: declared_property_def)
qed

lemma property_record_first_record:
  "property_record pint (l # rest) = property_record pint (l # take 6 rest)"
proof (cases rest)
  case Nil
  then show ?thesis by simp
next
  case (Cons a as)
  have "property_record pint (l # take 6 rest @ drop 6 rest) = property_record pint (l # take 6 rest)"
    by (rule property_record_local) (simp add: Cons)
  then show ?thesis by simp
qed

lemma property_assignments_loop_records:
  "list_all (\<lambda>r. wf_property_record pint r \<or> skipped_property_record pint r) (records7 ls) \<Longrightarrow>
   property_assignments_loop pint ls = Inr (List.map_filter (declared_property pint) (records7 ls))"
proof (induction "length ls" arbitrary: ls rule: less_induct)
  case less
  show ?case
  proof (cases ls)
    case Nil
    then show ?thesis by (simp add: List.map_filter_simps)
  next
    case (Cons l rest)
    have IH: "property_assignments_loop pint (drop 6 rest) =
        Inr (List.map_filter (declared_property pint) (records7 (drop 6 rest)))"
      using less(1)[of "drop 6 rest"] less(2) Cons by simp
    have h: "wf_property_record pint (l # take 6 rest) \<or> skipped_property_record pint (l # take 6 rest)"
      using less(2) Cons by simp
    show ?thesis
    proof (cases "wf_property_record pint (l # take 6 rest)")
      case True
      then obtain x where x: "3 \<le> length (parse_csv_line_fast l)"
          "property_record pint (l # take 6 rest) = Inr x"
        by (auto simp: wf_property_record_def split: sum.splits)
      then have "property_record pint (l # rest) = Inr x"
        by (simp add: property_record_first_record[of pint l rest])
      then show ?thesis
        using x IH Cons by (simp add: List.map_filter_simps declared_property_def)
    next
      case False
      then have sk: "skipped_property_record pint (l # take 6 rest)" using h by simp
      then have "property_assignments_loop pint ((l # take 6 rest) @ drop 6 rest) =
                 property_assignments_loop pint (drop 6 rest)"
        unfolding skipped_property_record_def by (rule property_assignments_loop_skip)
      then have "property_assignments_loop pint (l # rest) =
                 property_assignments_loop pint (drop 6 rest)" by simp
      then show ?thesis
        using IH Cons declared_property_skipped[OF sk] by (simp add: List.map_filter_simps)
    qed
  qed
qed

lemma property_assignments_records:
  "list_all (\<lambda>r. wf_property_record pint r \<or> skipped_property_record pint r)
     (concat (map (\<lambda>b. records7 (fb_lines b)) fbs)) \<Longrightarrow>
   property_assignments pint (map (\<lambda>b. \<lparr>block_id = k, lines = fb_lines b\<rparr>) fbs) =
     Inr (List.map_filter (declared_property pint) (concat (map (\<lambda>b. records7 (fb_lines b)) fbs)))"
proof (induction fbs)
  case Nil
  show ?case by (simp add: List.map_filter_simps)
next
  case (Cons b fbs)
  then show ?case
    by (simp add: property_assignments_loop_records List.map_filter_def)
qed

text \<open>
  Claim C9, as amended. Take a file made of well-formed blocks in which every block-402
  record (seven lines, the last record of a block what is left) is well formed or skipped
  whole. Then \<^verbatim>\<open>get_properties\<close>, run on the scanned file, returns a dictionary; its entry
  for a property ID holds the material ID and the title of the last well-formed record
  with that ID in file order, within one block and across repeated blocks, and it has no
  entry for an ID that no well-formed record carries.
\<close>

theorem get_properties_last_wins:
  assumes "list_all (wf_file_block pint) bs"
    and "list_all (\<lambda>r. wf_property_record pint r \<or> skipped_property_record pint r)
           (property_records bs)"
  shows "\<exists>m. bind_err (parse pint (file_text bs)) (get_properties pint) = Inr m \<and>
             (\<forall>pid. m pid =
                (case filter (\<lambda>x. fst x = pid) (declared_properties pint bs) of
                   [] \<Rightarrow> None
                 | xs \<Rightarrow> Some (snd (last xs))))"
proof -
  have "property_assignments pint (get_blocks (scanned_blocks bs) 402) =
        Inr (declared_properties pint bs)"
    using property_assignments_records[of pint "filter (\<lambda>b. fb_id b = 402) bs" 402] assms(2)
    by (simp add: get_blocks_scanned declared_properties_def property_records_def)
  then have "get_properties pint (scanned_blocks bs) =
             Inr (map_of (rev (declared_properties pint bs)))"
    by (simp add: get_properties_def properties_blocks_assignments)
  then have "bind_err (parse pint (file_text bs)) (get_properties pint) =
             Inr (map_of (rev (declared_properties pint bs)))"
    using parse_file[OF assms(1)] by simp
  then show ?thesis by (simp add: map_of_rev_last split: list.splits)
qed

text \<open>
  Two property blocks with a node block between them: property 7 is declared in the first
  block and again, after a record that is skipped whole, in the second.
\<close>

theorem get_properties_last_wins_witness:
  "list_all (wf_file_block dec_int)
     [header_block, properties_block (property_lines_a @ property_lines_b), nodes_block_a,
      properties_block (property_lines_skipped @ property_lines_c)] \<and>
   list_all (\<lambda>r. wf_property_record dec_int r \<or> skipped_property_record dec_int r)
     (property_records
        [header_block, properties_block (property_lines_a @ property_lines_b), nodes_block_a,
         properties_block (property_lines_skipped @ property_lines_c)]) \<and>
   declared_properties dec_int
     [header_block, properties_block (property_lines_a @ property_lines_b), nodes_block_a,
      properties_block (property_lines_skipped @ property_lines_c)] =
     [(7, \<lparr>prop_material_id = 1, prop_title = ''Solid''\<rparr>),
      (8, \<lparr>prop_material_id = 2, prop_title = []\<rparr>),
      (7, \<lparr>prop_material_id = 3, prop_title = ''Shell''\<rparr>)] \<and>
   (\<exists>m. bind_err (parse dec_int (file_text
            [header_block, properties_block (property_lines_a @ property_lines_b), nodes_block_a,
             properties_block (property_lines_skipped @ property_lines_c)]))
          (get_properties dec_int) = Inr m \<and>
        m 7 = Some \<lparr>prop_material_id = 3, prop_title = ''Shell''\<rparr> \<and>
        m 8 = Some \<lparr>prop_material_id = 2, prop_title = []\<rparr> \<and>
        m 9 = None)"
proof -
  let ?bs = "[header_block, properties_block (property_lines_a @ property_lines_b), nodes_block_a,
              properties_block (property_lines_skipped @ property_lines_c)]"
  have h1: "list_all (wf_file_block dec_int) ?bs" by code_simp
  have h2: "list_all (\<lambda>r. wf_property_record dec_int r \<or> skipped_property_record dec_int r)
              (property_records ?bs)" by code_simp
  have d: "declared_properties dec_int ?bs =
     [(7, \<lparr>prop_material_id = 1, prop_title = ''Solid''\<rparr>),
      (8, \<lparr>prop_material_id = 2, prop_title = []\<rparr>),
      (7, \<lparr>prop_material_id = 3, prop_title = ''Shell''\<rparr>)]" by code_simp
  from get_properties_last_wins[OF h1 h2]
  obtain m where m: "bind_err (parse dec_int (file_text ?bs)) (get_properties dec_int) = Inr m"
    "\<And>pid. m pid =
       (case filter (\<lambda>x. fst x = pid) (declared_properties dec_int ?bs) of
          [] \<Rightarrow> None
        | xs \<Rightarrow> Some (snd (last xs)))"
    by blast
  have "m 7 = Some \<lparr>prop_material_id = 3, prop_title = ''Shell''\<rparr>"
       "m 8 = Some \<lparr>prop_material_id = 2, prop_title = []\<rparr>" "m 9 = None"
    unfolding m(2) d by simp_all
  then show ?thesis using h1 h2 d m(1) by blast
qed

text \<open>
  Claim C9 as stated fails when a malformed record stands between two records of the same
  ID. The block holds three seven-line records: property 7 with material 1, a record whose
  material ID is \<^verbatim>\<open>x\<close>, and property 7 with material 3. After the failure the scan goes on
  at the second line of the malformed record, takes its third line \<^verbatim>\<open>0,0,0,0,\<close> for a
  property 0, and from there steps over the first line of the last record: the entry of
  property 7 comes from the first record, not from the last one.
\<close>

theorem malformed_record_first_wins_counterexample:
  "list_all (wf_file_block dec_int)
     [properties_block (property_lines_a @ property_lines_malformed @ property_lines_c)] \<and>
   property_records
     [properties_block (property_lines_a @ property_lines_malformed @ property_lines_c)] =
     [property_lines_a, property_lines_malformed, property_lines_c] \<and>
   property_record dec_int property_lines_a =
     Inr (7, \<lparr>prop_material_id = 1, prop_title = ''Solid''\<rparr>) \<and>
   property_record dec_int property_lines_malformed = Inl ValueError \<and>
   property_record dec_int property_lines_c =
     Inr (7, \<lparr>prop_material_id = 3, prop_title = ''Shell''\<rparr>) \<and>
   map_sum id (\<lambda>m. (m 7, m 0))
     (bind_err
        (parse dec_int (file_text
           [properties_block (property_lines_a @ property_lines_malformed @ property_lines_c)]))
        (get_properties dec_int)) =
     Inr (Some \<lparr>prop_material_id = 1, prop_title = ''Solid''\<rparr>,
          Some \<lparr>prop_material_id = 0, prop_title = ''8''\<rparr>)"
  by code_simp

section \<open>Extraction as a fold over the blocks\<close>

lemma fold_bind_Inl: "fold (\<lambda>b r. bind_err r (F b)) xs (Inl e) = Inl e"
  by (induction xs) simp_all

lemma blocks_as_fold:
  assumes nil: "\<And>a. G [] a = Inr a"
    and cons: "\<And>b bs a. G (b # bs) a = bind_err (L (lines b) a) (G bs)"
  shows "G Bs a = fold (\<lambda>b r. bind_err r (L (lines b))) Bs (Inr a)"
proof (induction Bs arbitrary: a)
  case Nil
  show ?case by (simp add: nil)
next
  case (Cons b Bs)
  show ?case
  proof (cases "L (lines b) a")
    case (Inl e)
    then show ?thesis by (simp add: cons fold_bind_Inl)
  next
    case (Inr a')
    then show ?thesis by (simp add: cons Cons)
  qed
qed

text \<open>Dictionaries: every block adds its own entries, and the last block that holds a key
  decides its entry.\<close>

lemma fold_dict_last:
  assumes acc: "\<And>b a. F b a = map_sum (\<lambda>e. OverflowError) (\<lambda>d. a ++ d) (F b Map.empty)"
    and ok: "\<And>b. b \<in> set xs \<Longrightarrow> F b Map.empty = Inr (D b)"
  shows "fold (\<lambda>b r. bind_err r (F b)) xs (Inr a) =
           Inr (\<lambda>k. if filter (\<lambda>b. k \<in> dom (D b)) xs = [] then a k
                     else D (last (filter (\<lambda>b. k \<in> dom (D b)) xs)) k)"
  using ok
proof (induction xs rule: rev_induct)
  case Nil
  show ?case by simp
next
  case (snoc x xs)
  have x: "F x Map.empty = Inr (D x)" using snoc.prems by simp
  let ?m = "\<lambda>k. if filter (\<lambda>b. k \<in> dom (D b)) xs = [] then a k
                     else D (last (filter (\<lambda>b. k \<in> dom (D b)) xs)) k"
  have IH: "fold (\<lambda>b r. bind_err r (F b)) xs (Inr a) = Inr ?m"
    using snoc by simp
  have "F x ?m = Inr (?m ++ D x)" using acc[of x ?m] x by simp
  moreover have "?m ++ D x =
      (\<lambda>k. if filter (\<lambda>b. k \<in> dom (D b)) (xs @ [x]) = [] then a k
            else D (last (filter (\<lambda>b. k \<in> dom (D b)) (xs @ [x]))) k)"
  proof (rule ext)
    fix k
    show "(?m ++ D x) k =
      (if filter (\<lambda>b. k \<in> dom (D b)) (xs @ [x]) = [] then a k
       else D (last (filter (\<lambda>b. k \<in> dom (D b)) (xs @ [x]))) k)"
      by (cases "D x k") (auto simp: map_add_def dom_def)
  qed
  ultimately show ?case using IH by simp
qed

lemma fold_error:
  assumes acc: "\<And>b a. F b a = map_sum (\<lambda>e. OverflowError) (g a) (F b u)"
  shows "fold (\<lambda>b r. bind_err r (F b)) xs (Inr a) = Inl e \<Longrightarrow> e = OverflowError"
proof (induction xs arbitrary: e rule: rev_induct)
  case Nil
  then show ?case by simp
next
  case (snoc x xs)
  show ?case
  proof (cases "fold (\<lambda>b r. bind_err r (F b)) xs (Inr a)")
    case (Inl e')
    then show ?thesis using snoc by simp
  next
    case (Inr a')
    then have "F x a' = Inl e" using snoc.prems by simp
    then show ?thesis using acc[of x a'] by (cases "F x u") simp_all
  qed
qed

lemma fold_fails:
  assumes acc: "\<And>b a. F b a = map_sum (\<lambda>e. OverflowError) (g a) (F b u)"
    and bad: "b \<in> set xs" "F b u = Inl e"
  shows "fold (\<lambda>b r. bind_err r (F b)) xs (Inr a) = Inl OverflowError"
proof -
  have "\<exists>e'. fold (\<lambda>b r. bind_err r (F b)) xs (Inr a) = Inl e'"
    using bad(1)
  proof (induction xs rule: rev_induct)
    case Nil
    then show ?case by simp
  next
    case (snoc x xs)
    show ?case
    proof (cases "fold (\<lambda>b r. bind_err r (F b)) xs (Inr a)")
      case (Inl e')
      then show ?thesis by simp
    next
      case (Inr a')
      then have "b \<notin> set xs" using snoc.IH by auto
      then have "x = b" using snoc.prems by simp
      then have "F x a' = Inl OverflowError" using acc[of x a'] bad(2) by simp
      then show ?thesis using Inr by simp
    qed
  qed
  then show ?thesis using fold_error[of F g u xs a, OF acc] by blast
qed

text \<open>Lists: every block appends its own items.\<close>

lemma fold_list_concat:
  assumes acc: "\<And>b a. F b a = map_sum (\<lambda>e. OverflowError) (\<lambda>d. a @ d) (F b [])"
    and ok: "\<And>b. b \<in> set xs \<Longrightarrow> F b [] = Inr (D b)"
  shows "fold (\<lambda>b r. bind_err r (F b)) xs (Inr a) = Inr (a @ concat (map D xs))"
  using ok
proof (induction xs rule: rev_induct)
  case Nil
  show ?case by simp
next
  case (snoc x xs)
  have x: "F x [] = Inr (D x)" using snoc.prems by simp
  have IH: "fold (\<lambda>b r. bind_err r (F b)) xs (Inr a) = Inr (a @ concat (map D xs))"
    using snoc by simp
  have "F x (a @ concat (map D xs)) = Inr ((a @ concat (map D xs)) @ D x)"
    using acc[of x "a @ concat (map D xs)"] x by simp
  then show ?case using IH by simp
qed

lemma concat_map_nonempty:
  "concat (map D xs) = concat (map D (filter (\<lambda>b. D b \<noteq> []) xs))"
  by (induction xs) simp_all

lemma fold_list_same_order:
  assumes acc: "\<And>b a. F b a = map_sum (\<lambda>e. OverflowError) (\<lambda>d. a @ d) (F b [])"
    and sets: "set xs' = set xs"
    and order: "filter (\<lambda>b. has b) xs' = filter (\<lambda>b. has b) xs"
    and has: "\<And>b d. F b [] = Inr d \<Longrightarrow> has b \<longleftrightarrow> d \<noteq> []"
  shows "fold (\<lambda>b r. bind_err r (F b)) xs' (Inr a) = fold (\<lambda>b r. bind_err r (F b)) xs (Inr a)"
proof (cases "\<exists>b\<in>set xs. \<exists>e. F b [] = Inl e")
  case True
  then obtain b e where b: "b \<in> set xs" "F b [] = Inl e" by blast
  have "fold (\<lambda>b r. bind_err r (F b)) xs (Inr a) = Inl OverflowError"
    using acc b by (rule fold_fails)
  moreover have "fold (\<lambda>b r. bind_err r (F b)) xs' (Inr a) = Inl OverflowError"
    using acc b(1)[folded sets] b(2) by (rule fold_fails)
  ultimately show ?thesis by simp
next
  case False
  define D where "D b = (case F b [] of Inr d \<Rightarrow> d | Inl e \<Rightarrow> [])" for b
  have ok: "F b [] = Inr (D b)" if "b \<in> set xs" for b
    using False that by (cases "F b []") (auto simp: D_def)
  have ok': "F b [] = Inr (D b)" if "b \<in> set xs'" for b
    using ok that sets by simp
  have k: "filter (\<lambda>b. D b \<noteq> []) ys = filter (\<lambda>b. has b) ys" if "set ys = set xs" for ys
    using has[OF ok] that by (intro filter_cong) auto
  have c: "concat (map D xs') = concat (map D xs)"
    using concat_map_nonempty[of D xs'] concat_map_nonempty[of D xs]
    by (simp add: k sets order)
  have 1: "fold (\<lambda>b r. bind_err r (F b)) xs (Inr a) = Inr (a @ concat (map D xs))"
    using acc ok by (rule fold_list_concat)
  have 2: "fold (\<lambda>b r. bind_err r (F b)) xs' (Inr a) = Inr (a @ concat (map D xs'))"
    using acc ok' by (rule fold_list_concat)
  show ?thesis unfolding 1 2 c ..
qed

section \<open>What a loop does to its accumulator\<close>

lemma nodes_lines_acc:
  "nodes_lines pint pfloat ls a =
     map_sum (\<lambda>e. OverflowError) (\<lambda>d. a ++ d) (nodes_lines pint pfloat ls Map.empty)"
proof (induction ls arbitrary: a)
  case Nil
  show ?case by simp
next
  case (Cons l ls)
  show ?case
  proof (cases "14 \<le> length (parse_csv_line_fast l)")
    case False
    then show ?thesis using Cons[of a] by simp
  next
    case True
    show ?thesis
    proof (cases "node_record pint pfloat (parse_csv_line_fast l)")
      case (Inl e)
      then show ?thesis using True Cons[of a] by (cases e) simp_all
    next
      case (Inr t)
      obtain k v where t: "t = (k, v)" by (cases t) auto
      have 1: "nodes_lines pint pfloat ls (a(k \<mapsto> v)) =
          map_sum (\<lambda>e. OverflowError) (\<lambda>d. a(k \<mapsto> v) ++ d) (nodes_lines pint pfloat ls Map.empty)"
        by (rule Cons)
      have 2: "nodes_lines pint pfloat ls [k \<mapsto> v] =
          map_sum (\<lambda>e. OverflowError) (\<lambda>d. [k \<mapsto> v] ++ d) (nodes_lines pint pfloat ls Map.empty)"
        by (rule Cons)
      show ?thesis
        using True Inr t
        by (cases "nodes_lines pint pfloat ls Map.empty") (simp_all add: 1 2)
    qed
  qed
qed

lemma materials_loop_acc:
  "materials_loop pint ls a =
     map_sum (\<lambda>e. OverflowError) (\<lambda>d. a ++ d) (materials_loop pint ls Map.empty)"
proof (induction ls arbitrary: a)
  case Nil
  show ?case by simp
next
  case (Cons l ls)
  show ?case
  proof (cases "1 \<le> length (parse_csv_line_fast l)")
    case False
    then show ?thesis using Cons[of a] by simp
  next
    case True
    show ?thesis
    proof (cases "c_int pint (parse_csv_line_fast l ! 0)")
      case (Inl e)
      then show ?thesis using True Cons[of a] by (cases e) simp_all
    next
      case (Inr k)
      have 1: "materials_loop pint ls (a(k \<mapsto> k)) =
          map_sum (\<lambda>e. OverflowError) (\<lambda>d. a(k \<mapsto> k) ++ d) (materials_loop pint ls Map.empty)"
        by (rule Cons)
      have 2: "materials_loop pint ls [k \<mapsto> k] =
          map_sum (\<lambda>e. OverflowError) (\<lambda>d. [k \<mapsto> k] ++ d) (materials_loop pint ls Map.empty)"
        by (rule Cons)
      show ?thesis
        using True Inr
        by (cases "materials_loop pint ls Map.empty") (simp_all add: 1 2)
    qed
  qed
qed

lemma materials_loop_ids:
  "materials_loop pint ls a = Inr d \<Longrightarrow> (\<And>k v. a k = Some v \<Longrightarrow> v = k) \<Longrightarrow> d k = Some v \<Longrightarrow> v = k"
proof (induction ls arbitrary: a)
  case Nil
  then show ?case by simp
next
  case (Cons l ls)
  show ?case
  proof (cases "1 \<le> length (parse_csv_line_fast l)")
    case False
    then have "materials_loop pint ls a = Inr d" using Cons.prems(1) by simp
    then show ?thesis using Cons.IH[of a] Cons.prems by blast
  next
    case True
    show ?thesis
    proof (cases "c_int pint (parse_csv_line_fast l ! 0)")
      case (Inl e)
      then have "materials_loop pint ls a = Inr d" using True Cons.prems(1) by (cases e) simp_all
      then show ?thesis using Cons.IH[of a] Cons.prems by blast
    next
      case (Inr i)
      then have "materials_loop pint ls (a(i \<mapsto> i)) = Inr d" using True Cons.prems(1) by simp
      moreover have "(a(i \<mapsto> i)) k' = Some v' \<Longrightarrow> v' = k'" for k' v'
        using Cons.prems(2)[of k' v'] by (cases "k' = i") simp_all
      ultimately show ?thesis using Cons.IH[of "a(i \<mapsto> i)"] Cons.prems(3) by blast
    qed
  qed
qed

lemma properties_loop_acc:
  "properties_loop pint ls a =
     map_sum (\<lambda>e. OverflowError) (\<lambda>d. a ++ d) (properties_loop pint ls Map.empty)"
proof (induction "length ls" arbitrary: ls a rule: less_induct)
  case less
  show ?case
  proof (cases ls)
    case Nil
    then show ?thesis by simp
  next
    case (Cons l rest)
    have IH: "properties_loop pint ls' a' =
        map_sum (\<lambda>e. OverflowError) (\<lambda>d. a' ++ d) (properties_loop pint ls' Map.empty)"
      if "length ls' \<le> length rest" for ls' a'
      using less[of ls' a'] that Cons by simp
    show ?thesis
    proof (cases "3 \<le> length (parse_csv_line_fast l)")
      case False
      then show ?thesis using Cons IH[of rest a] by simp
    next
      case True
      show ?thesis
      proof (cases "property_record pint (l # rest)")
        case (Inl e)
        then show ?thesis using Cons True IH[of rest a] by (cases e) simp_all
      next
        case (Inr t)
        obtain k v where t: "t = (k, v)" by (cases t) auto
        have 1: "properties_loop pint (drop 6 rest) (a(k \<mapsto> v)) =
            map_sum (\<lambda>e. OverflowError) (\<lambda>d. a(k \<mapsto> v) ++ d)
              (properties_loop pint (drop 6 rest) Map.empty)"
          by (rule IH) simp
        have 2: "properties_loop pint (drop 6 rest) [k \<mapsto> v] =
            map_sum (\<lambda>e. OverflowError) (\<lambda>d. [k \<mapsto> v] ++ d)
              (properties_loop pint (drop 6 rest) Map.empty)"
          by (rule IH) simp
        show ?thesis
          using Cons True Inr t
          by (cases "properties_loop pint (drop 6 rest) Map.empty") (simp_all add: 1 2)
      qed
    qed
  qed
qed

lemma output_sets_loop_acc:
  "output_sets_loop pint pfloat ls a =
     map_sum (\<lambda>e. OverflowError) (\<lambda>d. a ++ d) (output_sets_loop pint pfloat ls Map.empty)"
proof (induction "length ls" arbitrary: ls a rule: less_induct)
  case less
  show ?case
  proof (cases ls)
    case Nil
    then show ?thesis by simp
  next
    case (Cons l rest)
    have IH: "output_sets_loop pint pfloat ls' a' =
        map_sum (\<lambda>e. OverflowError) (\<lambda>d. a' ++ d) (output_sets_loop pint pfloat ls' Map.empty)"
      if "length ls' \<le> length rest" for ls' a'
      using less[of ls' a'] that Cons by simp
    show ?thesis
    proof (cases "1 \<le> length (parse_csv_line_fast l)")
      case False
      then show ?thesis using Cons IH[of rest a] by simp
    next
      case True
      show ?thesis
      proof (cases "output_set_record pint pfloat (l # rest)")
        case (Inl e)
        then show ?thesis using Cons True IH[of rest a] by (cases e) simp_all
      next
        case (Inr t)
        obtain k v where t: "t = (k, v)" by (cases t) auto
        have 1: "output_sets_loop pint pfloat (drop 5 rest) (a(k \<mapsto> v)) =
            map_sum (\<lambda>e. OverflowError) (\<lambda>d. a(k \<mapsto> v) ++ d)
              (output_sets_loop pint pfloat (drop 5 rest) Map.empty)"
          by (rule IH) simp
        have 2: "output_sets_loop pint pfloat (drop 5 rest) [k \<mapsto> v] =
            map_sum (\<lambda>e. OverflowError) (\<lambda>d. [k \<mapsto> v] ++ d)
              (output_sets_loop pint pfloat (drop 5 rest) Map.empty)"
          by (rule IH) simp
        show ?thesis
          using Cons True Inr t
          by (cases "output_sets_loop pint pfloat (drop 5 rest) Map.empty") (simp_all add: 1 2)
      qed
    qed
  qed
qed

lemma elements_loop_acc:
  "elements_loop pint ls a =
     map_sum (\<lambda>e. OverflowError) (\<lambda>d. a @ d) (elements_loop pint ls [])"
proof (induction "length ls" arbitrary: ls a rule: less_induct)
  case less
  show ?case
  proof (cases ls)
    case Nil
    then show ?thesis by simp
  next
    case (Cons l rest)
    have IH: "elements_loop pint ls' a' =
        map_sum (\<lambda>e. OverflowError) (\<lambda>d. a' @ d) (elements_loop pint ls' [])"
      if "length ls' \<le> length rest" for ls' a'
      using less[of ls' a'] that Cons by simp
    show ?thesis
    proof (cases "5 \<le> length (parse_csv_line_fast l)")
      case False
      then show ?thesis using Cons IH[of rest a] by simp
    next
      case True
      show ?thesis
      proof (cases "element_record pint (l # rest)")
        case (Inl e)
        then show ?thesis using Cons True IH[of rest a] by (cases e) simp_all
      next
        case (Inr v)
        have 1: "elements_loop pint (drop 6 rest) (a @ [v]) =
            map_sum (\<lambda>e. OverflowError) (\<lambda>d. (a @ [v]) @ d) (elements_loop pint (drop 6 rest) [])"
          by (rule IH) simp
        have 2: "elements_loop pint (drop 6 rest) [v] =
            map_sum (\<lambda>e. OverflowError) (\<lambda>d. [v] @ d) (elements_loop pint (drop 6 rest) [])"
          by (rule IH) simp
        show ?thesis
          using Cons True Inr
          by (cases "elements_loop pint (drop 6 rest) []") (simp_all add: 1 2)
      qed
    qed
  qed
qed

lemma vectors_loop_acc:
  "vectors_loop pint pfloat ls a =
     map_sum (\<lambda>e. OverflowError) (\<lambda>d. a @ d) (vectors_loop pint pfloat ls [])"
proof (induction "length ls" arbitrary: ls a rule: less_induct)
  case less
  show ?case
  proof (cases ls)
    case Nil
    then show ?thesis by simp
  next
    case (Cons l rest)
    have IH: "vectors_loop pint pfloat ls' a' =
        map_sum (\<lambda>e. OverflowError) (\<lambda>d. a' @ d) (vectors_loop pint pfloat ls' [])"
      if "length ls' \<le> length rest" for ls' a'
      using less[of ls' a'] that Cons by simp
    show ?thesis
    proof (cases "2 \<le> length (parse_csv_line_fast l)")
      case False
      then show ?thesis using Cons IH[of rest a] by simp
    next
      case True
      show ?thesis
      proof (cases "vector_header pint (l # rest)")
        case (Inl e)
        then show ?thesis using Cons True IH[of rest a] by (cases e) simp_all
      next
        case (Inr h)
        obtain sid vid t et where h: "h = (sid, vid, t, et)" by (cases h) auto
        show ?thesis
        proof (cases "results_loop pint pfloat (drop 6 rest) Map.empty")
          case f: (Inl fl)
          obtain e pos where fl: "fl = (e, pos)" by (cases fl) auto
          have pos: "pos \<noteq> []" "length pos \<le> length (drop 6 rest)"
            using results_loop_length[where pint = pint and pfloat = pfloat
                and ls = "drop 6 rest" and results = Map.empty] f fl by simp_all
          have len: "length (tl pos) \<le> length rest" using pos by simp
          show ?thesis
            using Cons True Inr h f fl IH[OF len, of a] by (cases e) simp_all
        next
          case r: (Inr u)
          obtain res rest' where u: "u = (res, rest')" by (cases u) auto
          have len: "length rest' \<le> length rest"
            using results_loop_length[where pint = pint and pfloat = pfloat
                and ls = "drop 6 rest" and results = Map.empty] r u by simp
          let ?v = "\<lparr>vec_set_id = sid, vec_vec_id = vid, vec_title = t,
                        vec_ent_type = et, vec_results = res\<rparr>"
          have 1: "vectors_loop pint pfloat rest' (a @ [?v]) =
              map_sum (\<lambda>e. OverflowError) (\<lambda>d. (a @ [?v]) @ d) (vectors_loop pint pfloat rest' [])"
            by (rule IH[OF len])
          have 2: "vectors_loop pint pfloat rest' [?v] =
              map_sum (\<lambda>e. OverflowError) (\<lambda>d. [?v] @ d) (vectors_loop pint pfloat rest' [])"
            by (rule IH[OF len])
          show ?thesis
            using Cons True Inr h r u
            by (cases "vectors_loop pint pfloat rest' []") (simp_all add: 1 2)
        qed
      qed
    qed
  qed
qed

section \<open>The trace of the output-set loop\<close>

lemma output_sets_loop_assignments:
  "output_sets_loop pint pfloat r m =
     map_sum id (\<lambda>recs. m ++ map_of (rev recs)) (output_set_assignments_loop pint pfloat r)"
proof (induction "length r" arbitrary: r m rule: less_induct)
  case less
  show ?case
  proof (cases r)
    case Nil
    then show ?thesis by simp
  next
    case (Cons line rest)
    have IH: "output_sets_loop pint pfloat r' m' =
        map_sum id (\<lambda>recs. m' ++ map_of (rev recs)) (output_set_assignments_loop pint pfloat r')"
      if "length r' \<le> length rest" for r' m'
      using less[of r' m'] that Cons by simp
    show ?thesis
    proof (cases "1 \<le> length (parse_csv_line_fast line)")
      case False
      then show ?thesis using Cons IH[of rest m] by simp
    next
      case True
      show ?thesis
      proof (cases "output_set_record pint pfloat (line # rest)")
        case (Inl e)
        then show ?thesis using Cons True IH[of rest m] by (cases e) simp_all
      next
        case (Inr t)
        obtain k p where t: "t = (k, p)" by (cases t) auto
        show ?thesis
          using Cons True Inr t IH[of "drop 5 rest" "m(k \<mapsto> p)"]
          by (cases "output_set_assignments_loop pint pfloat (drop 5 rest)") simp_all
      qed
    qed
  qed
qed

lemma fold_dict_keywise:
  assumes acc: "\<And>b a. F b a = map_sum (\<lambda>e. OverflowError) (\<lambda>d. a ++ d) (F b Map.empty)"
    and sets: "set xs' = set xs"
    and key: "\<And>k. filter (\<lambda>b. dict_entry (F b Map.empty) k \<noteq> None) xs' =
                    filter (\<lambda>b. dict_entry (F b Map.empty) k \<noteq> None) xs \<or>
                  (\<forall>b\<in>set xs. \<forall>b'\<in>set xs.
                     dict_entry (F b Map.empty) k \<noteq> None \<and> dict_entry (F b' Map.empty) k \<noteq> None \<longrightarrow>
                     dict_entry (F b Map.empty) k = dict_entry (F b' Map.empty) k)"
  shows "fold (\<lambda>b r. bind_err r (F b)) xs' (Inr a) = fold (\<lambda>b r. bind_err r (F b)) xs (Inr a)"
proof (cases "\<exists>b\<in>set xs. \<exists>e. F b Map.empty = Inl e")
  case True
  then obtain b e where b: "b \<in> set xs" "F b Map.empty = Inl e" by blast
  have "fold (\<lambda>b r. bind_err r (F b)) xs (Inr a) = Inl OverflowError"
    using acc b by (rule fold_fails)
  moreover have "fold (\<lambda>b r. bind_err r (F b)) xs' (Inr a) = Inl OverflowError"
    using acc b(1)[folded sets] b(2) by (rule fold_fails)
  ultimately show ?thesis by simp
next
  case False
  define D where "D b = (case F b Map.empty of Inr d \<Rightarrow> d | Inl e \<Rightarrow> Map.empty)" for b
  have ok: "F b Map.empty = Inr (D b)" if "b \<in> set xs" for b
    using False that by (cases "F b Map.empty") (auto simp: D_def)
  have ok': "F b Map.empty = Inr (D b)" if "b \<in> set xs'" for b
    using ok that sets by simp
  have en: "dict_entry (F b Map.empty) k = D b k" if "b \<in> set xs" for b k
    using ok[OF that] by (simp add: dict_entry_def)
  have flt: "filter (\<lambda>b. k \<in> dom (D b)) ys = filter (\<lambda>b. dict_entry (F b Map.empty) k \<noteq> None) ys"
    if "set ys = set xs" for k ys
    using en that by (intro filter_cong) (auto simp: dom_def)
  have 1: "fold (\<lambda>b r. bind_err r (F b)) xs (Inr a) =
           Inr (\<lambda>k. if filter (\<lambda>b. k \<in> dom (D b)) xs = [] then a k
                     else D (last (filter (\<lambda>b. k \<in> dom (D b)) xs)) k)"
    using acc ok by (rule fold_dict_last)
  have 2: "fold (\<lambda>b r. bind_err r (F b)) xs' (Inr a) =
           Inr (\<lambda>k. if filter (\<lambda>b. k \<in> dom (D b)) xs' = [] then a k
                     else D (last (filter (\<lambda>b. k \<in> dom (D b)) xs')) k)"
    using acc ok' by (rule fold_dict_last)
  have "(if filter (\<lambda>b. k \<in> dom (D b)) xs' = [] then a k
         else D (last (filter (\<lambda>b. k \<in> dom (D b)) xs')) k) =
        (if filter (\<lambda>b. k \<in> dom (D b)) xs = [] then a k
         else D (last (filter (\<lambda>b. k \<in> dom (D b)) xs)) k)" for k
  proof (cases "filter (\<lambda>b. k \<in> dom (D b)) xs = []")
    case True
    then have "filter (\<lambda>b. k \<in> dom (D b)) xs' = []"
      using sets by (simp add: filter_empty_conv)
    then show ?thesis using True by simp
  next
    case ne: False
    then have ne': "filter (\<lambda>b. k \<in> dom (D b)) xs' \<noteq> []"
      using sets by (simp add: filter_empty_conv)
    let ?b = "last (filter (\<lambda>b. k \<in> dom (D b)) xs)"
    let ?b' = "last (filter (\<lambda>b. k \<in> dom (D b)) xs')"
    from key[of k] show ?thesis
    proof
      assume "filter (\<lambda>b. dict_entry (F b Map.empty) k \<noteq> None) xs' =
              filter (\<lambda>b. dict_entry (F b Map.empty) k \<noteq> None) xs"
      then have "filter (\<lambda>b. k \<in> dom (D b)) xs' = filter (\<lambda>b. k \<in> dom (D b)) xs"
        using flt[of xs' k] flt[of xs k] sets by simp
      then show ?thesis by simp
    next
      assume ag: "\<forall>b\<in>set xs. \<forall>b'\<in>set xs.
                     dict_entry (F b Map.empty) k \<noteq> None \<and> dict_entry (F b' Map.empty) k \<noteq> None \<longrightarrow>
                     dict_entry (F b Map.empty) k = dict_entry (F b' Map.empty) k"
      have b: "?b \<in> set (filter (\<lambda>b. k \<in> dom (D b)) xs)" using ne by (rule last_in_set)
      have b': "?b' \<in> set (filter (\<lambda>b. k \<in> dom (D b)) xs')" using ne' by (rule last_in_set)
      from b have v: "?b \<in> set xs" "D ?b k \<noteq> None" by auto
      from b' have v': "?b' \<in> set xs" "D ?b' k \<noteq> None" using sets by auto
      have "D ?b k = D ?b' k" using ag v v' en[OF v(1)] en[OF v'(1)] by metis
      then show ?thesis using ne ne' by simp
    qed
  qed
  then show ?thesis unfolding 1 2 by simp
qed

lemma entries_kept_filter:
  assumes "entries_kept (\<lambda>b. dict_entry (F b Map.empty)) bid bs' bs"
  shows "filter (\<lambda>b. dict_entry (F b Map.empty) k \<noteq> None) (filter (\<lambda>b. fb_id b = bid) bs') =
           filter (\<lambda>b. dict_entry (F b Map.empty) k \<noteq> None) (filter (\<lambda>b. fb_id b = bid) bs) \<or>
         (\<forall>b\<in>set (filter (\<lambda>b. fb_id b = bid) bs). \<forall>b'\<in>set (filter (\<lambda>b. fb_id b = bid) bs).
            dict_entry (F b Map.empty) k \<noteq> None \<and> dict_entry (F b' Map.empty) k \<noteq> None \<longrightarrow>
            dict_entry (F b Map.empty) k = dict_entry (F b' Map.empty) k)"
  using assms[unfolded entries_kept_def, rule_format, of k] by auto

text \<open>The dictionary of a block, from the trace of its loop.\<close>

lemma nodes_lines_from_arrays:
  "nodes_lines pint pfloat ls Map.empty =
     map_sum id (\<lambda>(ids, cs). map_of (rev (zip ids cs))) (nodes_arrays_lines pint pfloat ls ([], []))"
  using nodes_lines_arrays[of "[]" "[]" pint pfloat ls Map.empty]
  by (cases "nodes_arrays_lines pint pfloat ls ([], [])") auto

lemma properties_loop_from_trace:
  "properties_loop pint ls Map.empty =
     map_sum id (\<lambda>recs. map_of (rev recs)) (property_assignments_loop pint ls)"
  by (cases "property_assignments_loop pint ls") (simp_all add: properties_loop_assignments)

lemma output_sets_loop_from_trace:
  "output_sets_loop pint pfloat ls Map.empty =
     map_sum id (\<lambda>recs. map_of (rev recs)) (output_set_assignments_loop pint pfloat ls)"
  by (cases "output_set_assignments_loop pint pfloat ls")
     (simp_all add: output_sets_loop_assignments)

section \<open>The extractors on a scanned file\<close>

lemma extract_as_fold:
  assumes nil: "\<And>a. G [] a = Inr a"
    and cons: "\<And>b bs a. G (b # bs) a = bind_err (L (lines b) a) (G bs)"
  shows "G (get_blocks (scanned_blocks bs) k) a =
         fold (\<lambda>b r. bind_err r (L (fb_lines b))) (filter (\<lambda>b. fb_id b = k) bs) (Inr a)"
  unfolding blocks_as_fold[of G L, OF nil cons] get_blocks_scanned
  by (simp add: fold_map comp_def)

lemma filter_id_set:
  assumes "mset bs' = mset bs"
  shows "set (filter P bs') = set (filter P bs)"
  using assms by (metis set_filter set_mset_mset)

section \<open>Claim C5: permuting the blocks of a file\<close>

text \<open>
  Claim C5, as amended. Take a file that consists of well-formed top-level blocks and
  permute the blocks, keeping the lines of each block. The materials extracted are the
  same. The nodes are the same when, for every node ID, the 403 blocks that hold the ID
  keep their relative order or all give it the same coordinates; likewise the properties
  (402 blocks, property IDs) and the output sets (450 blocks, set IDs): these are
  dictionaries in which the last record of a key wins. The elements and the output
  vectors, which are lists in file order, are the same when the 404 blocks that
  contribute an element, and the 1051 blocks that contribute a vector, keep their
  relative order.
\<close>

theorem block_order_independence:
  fixes pfloat :: "('f::zero) float_parser"
  assumes "list_all (wf_file_block pint) bs" and "mset bs' = mset bs"
  shows
    "bind_err (parse pint (file_text bs')) (get_materials pint) =
       bind_err (parse pint (file_text bs)) (get_materials pint) \<and>
     (entries_kept (block_node pint pfloat) 403 bs' bs \<longrightarrow>
      bind_err (parse pint (file_text bs')) (get_nodes pint pfloat) =
        bind_err (parse pint (file_text bs)) (get_nodes pint pfloat)) \<and>
     (entries_kept (block_property pint) 402 bs' bs \<longrightarrow>
      bind_err (parse pint (file_text bs')) (get_properties pint) =
        bind_err (parse pint (file_text bs)) (get_properties pint)) \<and>
     (entries_kept (block_output_set pint pfloat) 450 bs' bs \<longrightarrow>
      bind_err (parse pint (file_text bs')) (get_output_sets pint pfloat) =
        bind_err (parse pint (file_text bs)) (get_output_sets pint pfloat)) \<and>
     (filter (\<lambda>b. fb_id b = 404 \<and> block_has_elements pint b) bs' =
        filter (\<lambda>b. fb_id b = 404 \<and> block_has_elements pint b) bs \<longrightarrow>
      bind_err (parse pint (file_text bs')) (get_elements pint) =
        bind_err (parse pint (file_text bs)) (get_elements pint)) \<and>
     (filter (\<lambda>b. fb_id b = 1051 \<and> block_has_vectors pint pfloat b) bs' =
        filter (\<lambda>b. fb_id b = 1051 \<and> block_has_vectors pint pfloat b) bs \<longrightarrow>
      bind_err (parse pint (file_text bs')) (get_output_vectors pint pfloat) =
        bind_err (parse pint (file_text bs)) (get_output_vectors pint pfloat))"
proof -
  have "set bs' = set bs" using assms(2) by (metis set_mset_mset)
  then have wf': "list_all (wf_file_block pint) bs'" using assms(1) by (simp add: list_all_iff)
  note p = parse_file[OF assms(1)] and p' = parse_file[OF wf']
  note s = filter_id_set[OF assms(2)]
  have materials: "get_materials pint (scanned_blocks bs') = get_materials pint (scanned_blocks bs)"
    unfolding get_materials_def
      extract_as_fold[of "materials_blocks pint" "materials_loop pint", OF materials_blocks.simps]
  proof (rule fold_dict_keywise[where F = "\<lambda>b. materials_loop pint (fb_lines b)",
        OF materials_loop_acc s], rule disjI2, intro ballI impI)
    fix k and b b' :: file_block
    assume "dict_entry (materials_loop pint (fb_lines b) Map.empty) k \<noteq> None \<and>
            dict_entry (materials_loop pint (fb_lines b') Map.empty) k \<noteq> None"
    then obtain d d' v v' where A: "materials_loop pint (fb_lines b) Map.empty = Inr d"
      and B: "materials_loop pint (fb_lines b') Map.empty = Inr d'"
      and C: "d k = Some v" and D: "d' k = Some v'"
      by (auto simp: dict_entry_def split: sum.splits)
    have "v = k" by (rule materials_loop_ids[OF A _ C]) simp
    moreover have "v' = k" by (rule materials_loop_ids[OF B _ D]) simp
    ultimately show "dict_entry (materials_loop pint (fb_lines b) Map.empty) k =
                     dict_entry (materials_loop pint (fb_lines b') Map.empty) k"
      using A B C D by (simp add: dict_entry_def)
  qed
  have nodes: "get_nodes pint pfloat (scanned_blocks bs') = get_nodes pint pfloat (scanned_blocks bs)"
    if "entries_kept (block_node pint pfloat) 403 bs' bs"
    unfolding get_nodes_def
      extract_as_fold[of "nodes_blocks pint pfloat" "nodes_lines pint pfloat", OF nodes_blocks.simps]
    by (rule fold_dict_keywise[where F = "\<lambda>b. nodes_lines pint pfloat (fb_lines b)", OF nodes_lines_acc s])
       (rule entries_kept_filter[where F = "\<lambda>b. nodes_lines pint pfloat (fb_lines b)",
          OF that[unfolded block_node_def[abs_def]]])
  have properties: "get_properties pint (scanned_blocks bs') = get_properties pint (scanned_blocks bs)"
    if "entries_kept (block_property pint) 402 bs' bs"
    unfolding get_properties_def
      extract_as_fold[of "properties_blocks pint" "properties_loop pint", OF properties_blocks.simps]
    by (rule fold_dict_keywise[where F = "\<lambda>b. properties_loop pint (fb_lines b)", OF properties_loop_acc s])
       (rule entries_kept_filter[where F = "\<lambda>b. properties_loop pint (fb_lines b)",
          OF that[unfolded block_property_def[abs_def]]])
  have sets: "get_output_sets pint pfloat (scanned_blocks bs') =
              get_output_sets pint pfloat (scanned_blocks bs)"
    if "entries_kept (block_output_set pint pfloat) 450 bs' bs"
    unfolding get_output_sets_def
      extract_as_fold[of "output_sets_blocks pint pfloat" "output_sets_loop pint pfloat",
        OF output_sets_blocks.simps]
    by (rule fold_dict_keywise[where F = "\<lambda>b. output_sets_loop pint pfloat (fb_lines b)", OF output_sets_loop_acc s])
       (rule entries_kept_filter[where F = "\<lambda>b. output_sets_loop pint pfloat (fb_lines b)",
          OF that[unfolded block_output_set_def[abs_def]]])
  have elements: "get_elements pint (scanned_blocks bs') = get_elements pint (scanned_blocks bs)"
    if "filter (\<lambda>b. fb_id b = 404 \<and> block_has_elements pint b) bs' =
        filter (\<lambda>b. fb_id b = 404 \<and> block_has_elements pint b) bs"
    unfolding get_elements_def
      extract_as_fold[of "elements_blocks pint" "elements_loop pint", OF elements_blocks.simps]
    using that
    by (intro fold_list_same_order[where has = "block_has_elements pint", OF elements_loop_acc s])
       (simp_all add: block_has_elements_def split: list.splits)
  have vectors: "get_output_vectors pint pfloat (scanned_blocks bs') =
                 get_output_vectors pint pfloat (scanned_blocks bs)"
    if "filter (\<lambda>b. fb_id b = 1051 \<and> block_has_vectors pint pfloat b) bs' =
        filter (\<lambda>b. fb_id b = 1051 \<and> block_has_vectors pint pfloat b) bs"
    unfolding get_output_vectors_def
      extract_as_fold[of "vectors_blocks pint pfloat" "vectors_loop pint pfloat",
        OF vectors_blocks.simps]
    using that
    by (intro fold_list_same_order[where has = "block_has_vectors pint pfloat",
          OF vectors_loop_acc s])
       (simp_all add: block_has_vectors_def split: list.splits)
  show ?thesis
    unfolding p p' bind_err_simps
    using materials nodes properties sets elements vectors by blast
qed

text \<open>
  The sample file and its permutation: node 2 stands in both node blocks with the same
  coordinates, the other keys stand in one block each.
\<close>

theorem block_order_independence_witness:
  "list_all (wf_file_block dec_int) sample_file \<and>
   mset sample_file_permuted = mset sample_file \<and>
   entries_kept (block_node dec_int dec_float) 403 sample_file_permuted sample_file \<and>
   entries_kept (block_property dec_int) 402 sample_file_permuted sample_file \<and>
   entries_kept (block_output_set dec_int dec_float) 450 sample_file_permuted sample_file \<and>
   filter (\<lambda>b. fb_id b = 404 \<and> block_has_elements dec_int b) sample_file_permuted =
     filter (\<lambda>b. fb_id b = 404 \<and> block_has_elements dec_int b) sample_file \<and>
   filter (\<lambda>b. fb_id b = 1051 \<and> block_has_vectors dec_int dec_float b) sample_file_permuted =
     filter (\<lambda>b. fb_id b = 1051 \<and> block_has_vectors dec_int dec_float b) sample_file \<and>
   bind_err (parse dec_int (file_text sample_file_permuted)) (get_materials dec_int) =
     bind_err (parse dec_int (file_text sample_file)) (get_materials dec_int) \<and>
   bind_err (parse dec_int (file_text sample_file_permuted)) (get_nodes dec_int dec_float) =
     bind_err (parse dec_int (file_text sample_file)) (get_nodes dec_int dec_float) \<and>
   bind_err (parse dec_int (file_text sample_file_permuted)) (get_properties dec_int) =
     bind_err (parse dec_int (file_text sample_file)) (get_properties dec_int) \<and>
   bind_err (parse dec_int (file_text sample_file_permuted)) (get_output_sets dec_int dec_float) =
     bind_err (parse dec_int (file_text sample_file)) (get_output_sets dec_int dec_float) \<and>
   bind_err (parse dec_int (file_text sample_file_permuted)) (get_elements dec_int) =
     bind_err (parse dec_int (file_text sample_file)) (get_elements dec_int) \<and>
   bind_err (parse dec_int (file_text sample_file_permuted)) (get_output_vectors dec_int dec_float) =
     bind_err (parse dec_int (file_text sample_file)) (get_output_vectors dec_int dec_float)"
proof -
  have wf: "list_all (wf_file_block dec_int) sample_file" by code_simp
  have ms: "mset sample_file_permuted = mset sample_file"
    by (simp add: sample_file_def sample_file_permuted_def)
  have ids: "fb_id header_block = 100" "fb_id nodes_block_a = 403" "fb_id nodes_block_d = 403"
    "fb_id materials_block_a = 601" "fb_id materials_block_b = 601"
    "fb_id (elements_block ls) = 404" "fb_id (properties_block ls) = 402"
    "fb_id (output_sets_block ls) = 450" "fb_id (vectors_block ls) = 1051" for ls
    by (simp_all add: header_block_def nodes_block_a_def nodes_block_d_def materials_block_a_def
        materials_block_b_def elements_block_def properties_block_def output_sets_block_def
        vectors_block_def)
  have "nodes_arrays_lines dec_int dec_float (fb_lines nodes_block_a) ([], []) =
          Inr ([1, 2], [(0, 0, 0), (1, 0, 0)])"
       "nodes_arrays_lines dec_int dec_float (fb_lines nodes_block_d) ([], []) =
          Inr ([2, 3], [(1, 0, 0), (0, 1, 0)])"
    by code_simp+
  then have n: "block_node dec_int dec_float nodes_block_a = [1 \<mapsto> (0, 0, 0), 2 \<mapsto> (1, 0, 0)]"
    "block_node dec_int dec_float nodes_block_d = [2 \<mapsto> (1, 0, 0), 3 \<mapsto> (0, 1, 0)]"
    by (auto simp: block_node_def dict_entry_def nodes_lines_from_arrays)
  have "property_assignments_loop dec_int (fb_lines (properties_block property_lines_a)) =
          Inr [(7, \<lparr>prop_material_id = 1, prop_title = ''Solid''\<rparr>)]"
       "property_assignments_loop dec_int (fb_lines (properties_block property_lines_b)) =
          Inr [(8, \<lparr>prop_material_id = 2, prop_title = []\<rparr>)]"
    by code_simp+
  then have p: "block_property dec_int (properties_block property_lines_a) =
                  [7 \<mapsto> \<lparr>prop_material_id = 1, prop_title = ''Solid''\<rparr>]"
    "block_property dec_int (properties_block property_lines_b) =
                  [8 \<mapsto> \<lparr>prop_material_id = 2, prop_title = []\<rparr>]"
    by (auto simp: block_property_def dict_entry_def properties_loop_from_trace)
  have "output_set_assignments_loop dec_int dec_float
          (fb_lines (output_sets_block output_set_lines_a)) =
          Inr [(1, \<lparr>set_title = ''Step 1'', set_value = 1 / 100\<rparr>)]"
       "output_set_assignments_loop dec_int dec_float
          (fb_lines (output_sets_block output_set_lines_b)) =
          Inr [(2, \<lparr>set_title = ''Step 2'', set_value = 2 / 100\<rparr>)]"
    by code_simp+
  then have s: "block_output_set dec_int dec_float (output_sets_block output_set_lines_a) =
                  [1 \<mapsto> \<lparr>set_title = ''Step 1'', set_value = 1 / 100\<rparr>]"
    "block_output_set dec_int dec_float (output_sets_block output_set_lines_b) =
                  [2 \<mapsto> \<lparr>set_title = ''Step 2'', set_value = 2 / 100\<rparr>]"
    by (auto simp: block_output_set_def dict_entry_def output_sets_loop_from_trace)
  have e: "\<not> block_has_elements dec_int (elements_block [])"
    "block_has_elements dec_int (elements_block element_lines_a)" by code_simp+
  have h403: "entries_kept (block_node dec_int dec_float) 403 sample_file_permuted sample_file"
    unfolding entries_kept_def
  proof
    fix k :: int
    show "filter (\<lambda>b. fb_id b = 403 \<and> block_node dec_int dec_float b k \<noteq> None)
            sample_file_permuted =
          filter (\<lambda>b. fb_id b = 403 \<and> block_node dec_int dec_float b k \<noteq> None) sample_file \<or>
          (\<forall>b\<in>set sample_file. \<forall>b'\<in>set sample_file.
             fb_id b = 403 \<and> fb_id b' = 403 \<and> block_node dec_int dec_float b k \<noteq> None \<and>
             block_node dec_int dec_float b' k \<noteq> None \<longrightarrow>
             block_node dec_int dec_float b k = block_node dec_int dec_float b' k)"
    proof (cases "k = 2")
      case True
      then show ?thesis by (intro disjI2) (simp add: sample_file_def ids n)
    next
      case False
      then show ?thesis
        by (intro disjI1) (simp add: sample_file_def sample_file_permuted_def ids n)
    qed
  qed
  have h402: "entries_kept (block_property dec_int) 402 sample_file_permuted sample_file"
    unfolding entries_kept_def
    by (intro allI disjI1) (simp add: sample_file_def sample_file_permuted_def ids p)
  have h450: "entries_kept (block_output_set dec_int dec_float) 450 sample_file_permuted sample_file"
    unfolding entries_kept_def
    by (intro allI disjI1) (simp add: sample_file_def sample_file_permuted_def ids s)
  have h404: "filter (\<lambda>b. fb_id b = 404 \<and> block_has_elements dec_int b) sample_file_permuted =
     filter (\<lambda>b. fb_id b = 404 \<and> block_has_elements dec_int b) sample_file"
    by (simp add: sample_file_def sample_file_permuted_def ids e)
  have h1051: "filter (\<lambda>b. fb_id b = 1051 \<and> block_has_vectors dec_int dec_float b)
       sample_file_permuted =
     filter (\<lambda>b. fb_id b = 1051 \<and> block_has_vectors dec_int dec_float b) sample_file"
    by (simp add: sample_file_def sample_file_permuted_def ids)
  show ?thesis
    using block_order_independence[OF wf ms, where pfloat = dec_float]
      wf ms h403 h402 h450 h404 h1051
    by blast
qed

text \<open>
  Claim C5 as stated fails when two blocks that hold records with the same key, or two
  blocks of a list extractor, change places. Exchanging two element blocks, or two vector
  blocks, exchanges the items in the list returned. Exchanging two node blocks that both
  hold node 1, two property blocks that both hold property 7, or two output-set blocks
  that both hold set 1, changes the entry of that key, which comes from the last block.
\<close>

theorem block_order_counterexample:
  "list_all (wf_file_block dec_int)
     [elements_block element_lines_a, elements_block element_lines_b,
      vectors_block vector_lines_a, vectors_block vector_lines_b,
      nodes_block_a, nodes_block_c,
      properties_block property_lines_a, properties_block property_lines_c,
      output_sets_block output_set_lines_a, output_sets_block output_set_lines_c] \<and>
   bind_err (parse dec_int (file_text [elements_block element_lines_a, elements_block element_lines_b]))
       (get_elements dec_int) =
     Inr [\<lparr>elem_id = 10, elem_prop_id = 7, elem_topology = 2, elem_nodes = [1, 2, 3]\<rparr>,
          \<lparr>elem_id = 11, elem_prop_id = 7, elem_topology = 2, elem_nodes = [2, 3, 4]\<rparr>] \<and>
   bind_err (parse dec_int (file_text [elements_block element_lines_b, elements_block element_lines_a]))
       (get_elements dec_int) =
     Inr [\<lparr>elem_id = 11, elem_prop_id = 7, elem_topology = 2, elem_nodes = [2, 3, 4]\<rparr>,
          \<lparr>elem_id = 10, elem_prop_id = 7, elem_topology = 2, elem_nodes = [1, 2, 3]\<rparr>] \<and>
   map_sum id (map (\<lambda>v. (vec_results v 1, vec_results v 5)))
     (bind_err (parse dec_int (file_text [vectors_block vector_lines_a, vectors_block vector_lines_b]))
        (get_output_vectors dec_int dec_float)) =
     Inr [(Some (3 / 2), None), (None, Some 1)] \<and>
   map_sum id (map (\<lambda>v. (vec_results v 1, vec_results v 5)))
     (bind_err (parse dec_int (file_text [vectors_block vector_lines_b, vectors_block vector_lines_a]))
        (get_output_vectors dec_int dec_float)) =
     Inr [(None, Some 1), (Some (3 / 2), None)] \<and>
   map_sum id (\<lambda>m. m 1)
     (bind_err (parse dec_int (file_text [nodes_block_a, nodes_block_c]))
        (get_nodes dec_int dec_float)) = Inr (Some (5, 5, 5)) \<and>
   map_sum id (\<lambda>m. m 1)
     (bind_err (parse dec_int (file_text [nodes_block_c, nodes_block_a]))
        (get_nodes dec_int dec_float)) = Inr (Some (0, 0, 0)) \<and>
   map_sum id (\<lambda>m. m 7)
     (bind_err (parse dec_int (file_text
          [properties_block property_lines_a, properties_block property_lines_c]))
        (get_properties dec_int)) = Inr (Some \<lparr>prop_material_id = 3, prop_title = ''Shell''\<rparr>) \<and>
   map_sum id (\<lambda>m. m 7)
     (bind_err (parse dec_int (file_text
          [properties_block property_lines_c, properties_block property_lines_a]))
        (get_properties dec_int)) = Inr (Some \<lparr>prop_material_id = 1, prop_title = ''Solid''\<rparr>) \<and>
   map_sum id (\<lambda>m. m 1)
     (bind_err (parse dec_int (file_text
          [output_sets_block output_set_lines_a, output_sets_block output_set_lines_c]))
        (get_output_sets dec_int dec_float)) =
     Inr (Some \<lparr>set_title = ''Step 9'', set_value = 9 / 100\<rparr>) \<and>
   map_sum id (\<lambda>m. m 1)
     (bind_err (parse dec_int (file_text
          [output_sets_block output_set_lines_c, output_sets_block output_set_lines_a]))
        (get_output_sets dec_int dec_float)) =
     Inr (Some \<lparr>set_title = ''Step 1'', set_value = 1 / 100\<rparr>)"
  by code_simp

end
